theory Spec2Isabelle
  imports Complex_Main "HOL-Library.Log_Nat"
begin

section \<open>Numbers\<close>

text \<open>
  Every number of the program is a JavaScript \<open>number\<close>, an IEEE 754 binary64 value.
  The model keeps the finite ones as the real numbers they stand for, and rounds the
  result of every \<open>+\<close>, \<open>-\<close>, \<open>*\<close> and \<open>/\<close> to the nearest double, a tie going to
  the even significand: 53 bits of precision, the subnormal range included. Not
  represented are \<open>NaN\<close>, the infinities (a result beyond the largest double) and the
  sign of zero. Negation, comparison and \<open>Math.max\<close> are exact.
\<close>

text \<open>The binary exponent of a positive number: \<open>2 ^ e \<le> x < 2 ^ (e + 1)\<close>.\<close>

definition expo :: "real \<Rightarrow> int" where
  "expo x = (if 1 \<le> x then bitlen \<lfloor>x\<rfloor> - 1 else - bitlen (\<lceil>1 / x\<rceil> - 1))"

text \<open>To the nearest integer, a tie to the even one.\<close>

definition round_even :: "real \<Rightarrow> int" where
  "round_even r = (let f = \<lfloor>r\<rfloor>; d = r - of_int f
     in if d < 1 / 2 then f else if 1 / 2 < d then f + 1 else if even f then f else f + 1)"

text \<open>
  The spacing of the doubles around \<open>x\<close>: the unit of the last of 53 bits, and never
  below \<open>2 ^ -1074\<close>.
\<close>

definition quantum :: "real \<Rightarrow> real" where
  "quantum x = 2 powi (max (expo \<bar>x\<bar>) (- 1022) - 52)"

definition fl :: "real \<Rightarrow> real" where
  "fl x = (if x = 0 then 0 else of_int (round_even (x / quantum x)) * quantum x)"

definition add64 :: "real \<Rightarrow> real \<Rightarrow> real" where
  "add64 x y = fl (x + y)"

definition sub64 :: "real \<Rightarrow> real \<Rightarrow> real" where
  "sub64 x y = fl (x - y)"

definition mul64 :: "real \<Rightarrow> real \<Rightarrow> real" where
  "mul64 x y = fl (x * y)"

definition div64 :: "real \<Rightarrow> real \<Rightarrow> real" where
  "div64 x y = fl (x / y)"

text \<open>\<open>Math.round\<close> gives the nearest integer, a tie going up; it does not round twice.\<close>

definition Math_round :: "real \<Rightarrow> int" where
  "Math_round x = \<lfloor>x + 1 / 2\<rfloor>"

text \<open>\<open>Math.PI\<close> is the double nearest to \<open>\<pi>\<close>.\<close>

definition Math_PI :: real where
  "Math_PI = 884279719003555 / 281474976710656"

text \<open>
  Assigning a number to \<open>canvas.width\<close> converts it to an unsigned long: truncated, then
  taken modulo \<open>2 ^ 32\<close>.
\<close>

definition to_unsigned_long :: "real \<Rightarrow> nat" where
  "to_unsigned_long x = nat ((if x < 0 then \<lceil>x\<rceil> else \<lfloor>x\<rfloor>) mod 2 ^ 32)"

section \<open>types.ts\<close>

datatype WatermarkPosition = TOP_LEFT | TOP_RIGHT | BOTTOM_LEFT | BOTTOM_RIGHT | CENTER | TILED

record WatermarkSettings =
  wm_text :: string
  wm_fontSize :: real
  wm_color :: string
  wm_opacity :: real
  wm_position :: WatermarkPosition
  wm_padding :: real
  wm_rotation :: real
  wm_tilingGap :: real
  wm_contrast :: real

datatype ImageFormat = image_jpeg | image_png | image_webp

fun format_string :: "ImageFormat \<Rightarrow> string" where
  "format_string image_jpeg = ''image/jpeg''"
| "format_string image_png = ''image/png''"
| "format_string image_webp = ''image/webp''"

record ResizeSettings =
  rs_maxWidth :: real
  rs_quality :: real
  rs_format :: ImageFormat

record ProcessedImage =
  pi_id :: string
  pi_originalName :: string
  pi_previewUrl :: string
  pi_processedUrl :: string
  pi_width :: int
  pi_height :: int
  pi_size :: int

text \<open>
  A \<open>File\<close> as the pipeline sees it: its name, whether the \<open>FileReader\<close> delivers its
  bytes (\<open>onload\<close>) or fails (\<open>onerror\<close>), and what the \<open>Image\<close> element makes of the
  bytes: the natural width and height when it loads, \<open>None\<close> when it cannot decode them
  (the element then fires \<open>error\<close>, never \<open>load\<close>).
\<close>

record File =
  file_name :: string
  file_readable :: bool
  file_image :: "(nat \<times> nat) option"

record FileData =
  fd_file :: File
  fd_id :: string

section \<open>The 2D canvas\<close>

text \<open>
  The drawing state of a \<open>CanvasRenderingContext2D\<close>, as far as the program touches it.
  The transform is kept as the sequence of transformations applied since the identity,
  a rotation with its angle in radians;
  the font is \<open>bold <n>px "Inter", sans-serif\<close> and is kept as the size \<open>n\<close>; the filter
  is \<open>none\<close> or \<open>contrast(v)\<close>. The surface is kept as the sequence of drawing
  operations issued on it, each text operation with the drawing state it was issued under.
\<close>

datatype Transform = Translate real real | Rotate real

record DrawState =
  ds_globalAlpha :: real
  ds_fillStyle :: string
  ds_font :: real
  ds_textBaseline :: string
  ds_transform :: "Transform list"
  ds_filter :: "real option"

datatype DrawOp =
    DrawImage nat nat real real real real
  | FillText string real real DrawState

record Canvas =
  cv_width :: nat
  cv_height :: nat
  cv_state :: DrawState
  cv_stack :: "DrawState list"
  cv_ops :: "DrawOp list"

definition default_state :: DrawState where
  "default_state = \<lparr>ds_globalAlpha = 1, ds_fillStyle = ''#000000'', ds_font = 10,
     ds_textBaseline = ''alphabetic'', ds_transform = [], ds_filter = None\<rparr>"

definition createCanvas :: Canvas where
  "createCanvas = \<lparr>cv_width = 300, cv_height = 150, cv_state = default_state,
     cv_stack = [], cv_ops = []\<rparr>"

text \<open>
  Setting \<open>canvas.width\<close> or \<open>canvas.height\<close> clears the surface and resets the context.
  A value above \<open>2 ^ 31 - 1\<close> is replaced by the default of the attribute.
\<close>

definition set_width :: "real \<Rightarrow> Canvas \<Rightarrow> Canvas" where
  "set_width v c =
     \<lparr>cv_width = (let n = to_unsigned_long v in if 2147483647 < n then 300 else n),
      cv_height = cv_height c, cv_state = default_state, cv_stack = [], cv_ops = []\<rparr>"

definition set_height :: "real \<Rightarrow> Canvas \<Rightarrow> Canvas" where
  "set_height v c =
     \<lparr>cv_width = cv_width c,
      cv_height = (let n = to_unsigned_long v in if 2147483647 < n then 150 else n),
      cv_state = default_state, cv_stack = [], cv_ops = []\<rparr>"

definition drawImage :: "nat \<Rightarrow> nat \<Rightarrow> real \<Rightarrow> real \<Rightarrow> real \<Rightarrow> real \<Rightarrow> Canvas \<Rightarrow> Canvas" where
  "drawImage iw ih dx dy dw dh c = c\<lparr>cv_ops := cv_ops c @ [DrawImage iw ih dx dy dw dh]\<rparr>"

text \<open>An alpha outside \<open>[0, 1]\<close> is ignored by the setter.\<close>

definition set_globalAlpha :: "real \<Rightarrow> Canvas \<Rightarrow> Canvas" where
  "set_globalAlpha a c =
     (if 0 \<le> a \<and> a \<le> 1 then c\<lparr>cv_state := (cv_state c)\<lparr>ds_globalAlpha := a\<rparr>\<rparr> else c)"

definition set_fillStyle :: "string \<Rightarrow> Canvas \<Rightarrow> Canvas" where
  "set_fillStyle s c = c\<lparr>cv_state := (cv_state c)\<lparr>ds_fillStyle := s\<rparr>\<rparr>"

definition set_font :: "real \<Rightarrow> Canvas \<Rightarrow> Canvas" where
  "set_font px c = c\<lparr>cv_state := (cv_state c)\<lparr>ds_font := px\<rparr>\<rparr>"

definition set_textBaseline :: "string \<Rightarrow> Canvas \<Rightarrow> Canvas" where
  "set_textBaseline b c = c\<lparr>cv_state := (cv_state c)\<lparr>ds_textBaseline := b\<rparr>\<rparr>"

text \<open>\<open>contrast(v)\<close> with a negative \<open>v\<close> does not parse, and the assignment is ignored.\<close>

definition set_filter_contrast :: "real \<Rightarrow> Canvas \<Rightarrow> Canvas" where
  "set_filter_contrast v c =
     (if v < 0 then c else c\<lparr>cv_state := (cv_state c)\<lparr>ds_filter := Some v\<rparr>\<rparr>)"

definition save :: "Canvas \<Rightarrow> Canvas" where
  "save c = c\<lparr>cv_stack := cv_state c # cv_stack c\<rparr>"

definition restore :: "Canvas \<Rightarrow> Canvas" where
  "restore c = (case cv_stack c of [] \<Rightarrow> c | s # ss \<Rightarrow> c\<lparr>cv_state := s, cv_stack := ss\<rparr>)"

definition translate :: "real \<Rightarrow> real \<Rightarrow> Canvas \<Rightarrow> Canvas" where
  "translate x y c =
     c\<lparr>cv_state := (cv_state c)\<lparr>ds_transform := ds_transform (cv_state c) @ [Translate x y]\<rparr>\<rparr>"

definition rotate_ctx :: "real \<Rightarrow> Canvas \<Rightarrow> Canvas" where
  "rotate_ctx a c =
     c\<lparr>cv_state := (cv_state c)\<lparr>ds_transform := ds_transform (cv_state c) @ [Rotate a]\<rparr>\<rparr>"

definition fillText :: "string \<Rightarrow> real \<Rightarrow> real \<Rightarrow> Canvas \<Rightarrow> Canvas" where
  "fillText t x y c = c\<lparr>cv_ops := cv_ops c @ [FillText t x y (cv_state c)]\<rparr>"

text \<open>
  What the host answers during one invocation: whether \<open>getContext('2d')\<close> yields a
  context, the width \<open>measureText\<close> reports for a text at a font size, the data URI
  \<open>toDataURL\<close> produces for a surface, the string \<open>Math.random().toString(36)\<close>, and the
  URL \<open>URL.createObjectURL\<close> hands out.
\<close>

record Env =
  env_getContext :: bool
  env_measureText :: "real \<Rightarrow> string \<Rightarrow> real"
  env_toDataURL :: "Canvas \<Rightarrow> ImageFormat \<Rightarrow> real \<Rightarrow> string"
  env_random36 :: string
  env_createObjectURL :: "File \<Rightarrow> string"

section \<open>services/imageProcessor.ts\<close>

text \<open>Lines 19 to 26: the resize dimensions.\<close>

definition targetSize :: "nat \<Rightarrow> nat \<Rightarrow> ResizeSettings \<Rightarrow> real \<times> real" where
  "targetSize w h rs =
     (if real w > rs_maxWidth rs
      then (let ratio = div64 (rs_maxWidth rs) (real w)
            in (rs_maxWidth rs, mul64 (real h) ratio))
      else (real w, real h))"

text \<open>Lines 39, 40 and 64.\<close>

definition scaleFactor :: "real \<Rightarrow> real" where
  "scaleFactor targetWidth = div64 targetWidth 1000"

definition actualFontSize :: "WatermarkSettings \<Rightarrow> real \<Rightarrow> real" where
  "actualFontSize wm targetWidth = max (mul64 (wm_fontSize wm) (scaleFactor targetWidth)) 12"

definition padding :: "WatermarkSettings \<Rightarrow> real \<Rightarrow> real" where
  "padding wm targetWidth = mul64 (wm_padding wm) (scaleFactor targetWidth)"

text \<open>Lines 49 to 62.\<close>

definition drawWatermarkAt :: "WatermarkSettings \<Rightarrow> real \<Rightarrow> real \<Rightarrow> real \<Rightarrow> Canvas \<Rightarrow> Canvas" where
  "drawWatermarkAt wm textWidth x y c =
     (let c1 = save c;
          c2 = translate x y c1;
          c3 = rotate_ctx (div64 (mul64 (wm_rotation wm) Math_PI) 180) c2;
          c4 = (if wm_contrast wm \<noteq> 0
                then (let contrastValue = add64 1 (div64 (wm_contrast wm) 100)
                      in set_filter_contrast contrastValue c3)
                else c3);
          c5 = fillText (wm_text wm) (div64 (- textWidth) 2) 0 c4
      in restore c5)"

text \<open>
  Lines 76 to 80: the two \<open>for\<close> loops of the tiled mode. Neither has a bound on its
  number of rounds, so each is a partial function: \<open>None\<close> is a loop that never ends.
\<close>

partial_function (option) loop_y ::
  "WatermarkSettings \<Rightarrow> real \<Rightarrow> real \<Rightarrow> real \<Rightarrow> real \<Rightarrow> real \<Rightarrow> Canvas \<Rightarrow> Canvas option" where
  "loop_y wm textWidth x y boundY stepY c =
     (if y < boundY
      then loop_y wm textWidth x (add64 y stepY) boundY stepY
             (drawWatermarkAt wm textWidth x y c)
      else Some c)"

partial_function (option) loop_x ::
  "WatermarkSettings \<Rightarrow> real \<Rightarrow> real \<Rightarrow> real \<Rightarrow> real \<Rightarrow> real \<Rightarrow> real \<Rightarrow> real \<Rightarrow> Canvas
     \<Rightarrow> Canvas option" where
  "loop_x wm textWidth textHeight x boundX stepX boundY stepY c =
     (if x < boundX
      then Option.bind (loop_y wm textWidth x (- textHeight) boundY stepY c)
             (\<lambda>c'. loop_x wm textWidth textHeight (add64 x stepX) boundX stepX boundY stepY c')
      else Some c)"

declare loop_y.simps [code]
declare loop_x.simps [code]

text \<open>
  Lines 82 to 106: the \<open>switch\<close> over the position, on \<open>x = 0\<close>, \<open>y = 0\<close>. It has no
  case for \<open>TILED\<close> and no default.
\<close>

fun single_anchor ::
  "WatermarkPosition \<Rightarrow> real \<Rightarrow> real \<Rightarrow> real \<Rightarrow> real \<Rightarrow> real \<Rightarrow> real \<times> real" where
  "single_anchor TOP_LEFT targetWidth targetHeight pad textWidth textHeight =
     (add64 pad (div64 textWidth 2), add64 pad (div64 textHeight 2))"
| "single_anchor TOP_RIGHT targetWidth targetHeight pad textWidth textHeight =
     (sub64 (sub64 targetWidth pad) (div64 textWidth 2), add64 pad (div64 textHeight 2))"
| "single_anchor BOTTOM_LEFT targetWidth targetHeight pad textWidth textHeight =
     (add64 pad (div64 textWidth 2), sub64 (sub64 targetHeight pad) (div64 textHeight 2))"
| "single_anchor BOTTOM_RIGHT targetWidth targetHeight pad textWidth textHeight =
     (sub64 (sub64 targetWidth pad) (div64 textWidth 2),
      sub64 (sub64 targetHeight pad) (div64 textHeight 2))"
| "single_anchor CENTER targetWidth targetHeight pad textWidth textHeight =
     (div64 targetWidth 2, div64 targetHeight 2)"
| "single_anchor TILED targetWidth targetHeight pad textWidth textHeight = (0, 0)"

text \<open>Lines 28 to 42: the surface with the background and the watermark styling.\<close>

definition styledCanvas :: "nat \<Rightarrow> nat \<Rightarrow> WatermarkSettings \<Rightarrow> ResizeSettings \<Rightarrow> Canvas" where
  "styledCanvas w h wm rs =
     (let (targetWidth, targetHeight) = targetSize w h rs;
          c1 = set_height targetHeight (set_width targetWidth createCanvas);
          c2 = drawImage w h 0 0 targetWidth targetHeight c1;
          c3 = set_fillStyle (wm_color wm) (set_globalAlpha (wm_opacity wm) c2)
      in set_textBaseline ''middle'' (set_font (actualFontSize wm targetWidth) c3))"

text \<open>Lines 44 and 45, with the font of line 41 in force.\<close>

definition textWidth :: "Env \<Rightarrow> WatermarkSettings \<Rightarrow> real \<Rightarrow> real" where
  "textWidth env wm targetWidth =
     env_measureText env (actualFontSize wm targetWidth) (wm_text wm)"

text \<open>Lines 70 to 73: the gap and the step along one axis, from the extent of the text.\<close>

definition tile_step :: "real \<Rightarrow> real \<Rightarrow> real" where
  "tile_step extent tilingGap =
     (let gap = mul64 extent (div64 tilingGap 100) in add64 extent gap)"

text \<open>
  Lines 14 to 108: everything the \<open>onload\<close> handler of the image paints, once the
  context is there. \<open>None\<close> when the tiled loops do not end.
\<close>

definition renderCanvas ::
  "Env \<Rightarrow> nat \<Rightarrow> nat \<Rightarrow> WatermarkSettings \<Rightarrow> ResizeSettings \<Rightarrow> Canvas option" where
  "renderCanvas env w h wm rs =
     (let (targetWidth, targetHeight) = targetSize w h rs;
          c = styledCanvas w h wm rs;
          textW = textWidth env wm targetWidth;
          textHeight = actualFontSize wm targetWidth;
          pad = padding wm targetWidth
      in if wm_position wm = TILED
         then (let stepX = tile_step textW (wm_tilingGap wm);
                   stepY = tile_step textHeight (wm_tilingGap wm)
               in loop_x wm textW textHeight (- textW) (add64 targetWidth textW) stepX
                    (add64 targetHeight textHeight) stepY c)
         else (let (x, y) = single_anchor (wm_position wm) targetWidth targetHeight pad
                              textW textHeight
               in Some (drawWatermarkAt wm textW x y c)))"

text \<open>
  How a promise ends: resolved with a value, rejected with a reason, or never settled.
  The two reasons are the string of line 16 and the event of \<open>reader.onerror\<close>.
\<close>

datatype Reason = Could_not_get_canvas_context | ReaderError

datatype 'a Promise = Resolved 'a | Rejected Reason | Pending

text \<open>
  \<open>processImage\<close>. The reader fails: \<open>reader.onerror = reject\<close>. The image does not
  decode: \<open>img.onload\<close> never runs and the image has no \<open>onerror\<close> handler, so nobody
  settles the promise. No context: rejected. Otherwise the handler paints, encodes and
  resolves; when the painting never ends there is no outcome at all (\<open>None\<close>).
\<close>

definition processImage ::
  "Env \<Rightarrow> File \<Rightarrow> WatermarkSettings \<Rightarrow> ResizeSettings \<Rightarrow> ProcessedImage Promise option" where
  "processImage env file wm rs =
     (if \<not> file_readable file then Some (Rejected ReaderError)
      else case file_image file of
        None \<Rightarrow> Some Pending
      | Some (w, h) \<Rightarrow>
          if \<not> env_getContext env then Some (Rejected Could_not_get_canvas_context)
          else Option.bind (renderCanvas env w h wm rs) (\<lambda>c.
            let (targetWidth, targetHeight) = targetSize w h rs;
                processedUrl = env_toDataURL env c (rs_format rs) (rs_quality rs);
                head = length (''data:'' @ format_string (rs_format rs) @ '';base64,'');
                size = Math_round ((real (length processedUrl) - real head) * 3 / 4)
            in Some (Resolved \<lparr>pi_id = drop 7 (env_random36 env),
                 pi_originalName = file_name file,
                 pi_previewUrl = env_createObjectURL env file,
                 pi_processedUrl = processedUrl,
                 pi_width = Math_round targetWidth,
                 pi_height = Math_round targetHeight,
                 pi_size = size\<rparr>)))"

section \<open>App.tsx\<close>

text \<open>
  \<open>Promise.all\<close>: rejected as soon as one promise is rejected, resolved with all the
  values once every promise is resolved, and never settled otherwise. When several
  promises are rejected the reason is that of the first to be rejected in time; the
  model takes the first in the list.
\<close>

fun Promise_all :: "'a Promise list \<Rightarrow> 'a list Promise" where
  "Promise_all [] = Resolved []"
| "Promise_all (Rejected e # ps) = Rejected e"
| "Promise_all (Pending # ps) =
     (case Promise_all ps of Rejected e \<Rightarrow> Rejected e | _ \<Rightarrow> Pending)"
| "Promise_all (Resolved v # ps) =
     (case Promise_all ps of Resolved vs \<Rightarrow> Resolved (v # vs) | Rejected e \<Rightarrow> Rejected e
      | Pending \<Rightarrow> Pending)"

text \<open>The state of the component that \<open>handleProcessAll\<close> reads and writes, and the console.\<close>

record AppState =
  app_files :: "FileData list"
  app_processedImages :: "ProcessedImage list"
  app_isProcessing :: bool
  app_console :: "Reason list"

text \<open>
  Lines 40 to 54, as the state in which the component comes to rest. The \<open>i\<close>-th
  invocation of \<open>processImage\<close> gets the host's answers \<open>envs i\<close>. When \<open>Promise.all\<close>
  never settles, the \<open>await\<close> never resumes and \<open>finally\<close> never runs. When the handler
  of one image never returns, the page never comes to rest (\<open>None\<close>).
\<close>

definition handleProcessAll ::
  "(nat \<Rightarrow> Env) \<Rightarrow> WatermarkSettings \<Rightarrow> ResizeSettings \<Rightarrow> AppState \<Rightarrow> AppState option" where
  "handleProcessAll envs watermark resize st =
     (if length (app_files st) = 0 then Some st
      else case those (map (\<lambda>(i, f). processImage (envs i) (fd_file f) watermark resize)
                         (enumerate 0 (app_files st))) of
        None \<Rightarrow> None
      | Some ps \<Rightarrow>
          (case Promise_all ps of
             Resolved results \<Rightarrow>
               Some (st\<lparr>app_processedImages := results, app_isProcessing := False\<rparr>)
           | Rejected e \<Rightarrow>
               Some (st\<lparr>app_console := app_console st @ [e], app_isProcessing := False\<rparr>)
           | Pending \<Rightarrow> Some (st\<lparr>app_isProcessing := True\<rparr>)))"

section \<open>Reading the surface\<close>

text \<open>
  The anchor of a text operation is the translation it was issued under: the last but
  one transformation of its drawing state, the last being the rotation about the anchor.
\<close>

fun op_anchor :: "DrawOp \<Rightarrow> (real \<times> real) list" where
  "op_anchor (FillText t x y s) =
     (case rev (ds_transform s) of Rotate a # Translate ax ay # _ \<Rightarrow> [(ax, ay)] | _ \<Rightarrow> [])"
| "op_anchor (DrawImage iw ih dx dy dw dh) = []"

definition painted_anchors :: "Canvas \<Rightarrow> (real \<times> real) list" where
  "painted_anchors c = concat (map op_anchor (cv_ops c))"

text \<open>
  One instance of the watermark at an anchor, as an operation on the surface: the text,
  drawn at \<open>(-textWidth / 2, 0)\<close> under the drawing state \<open>s\<close> moved to the anchor,
  rotated, and filtered when the contrast is not 0.
\<close>

definition stamp :: "WatermarkSettings \<Rightarrow> real \<Rightarrow> DrawState \<Rightarrow> real \<times> real \<Rightarrow> DrawOp" where
  "stamp wm textW s a =
     FillText (wm_text wm) (div64 (- textW) 2) 0
       (s\<lparr>ds_transform :=
            ds_transform s @
              [Translate (fst a) (snd a), Rotate (div64 (mul64 (wm_rotation wm) Math_PI) 180)],
          ds_filter :=
            (if wm_contrast wm \<noteq> 0 \<and> 0 \<le> add64 1 (div64 (wm_contrast wm) 100)
             then Some (add64 1 (div64 (wm_contrast wm) 100)) else ds_filter s)\<rparr>)"

text \<open>
  The loop \<open>for (v = start; v < bound; v += step)\<close>: the value of \<open>v\<close> after \<open>n\<close>
  additions, and the number of rounds it makes: \<open>n\<close> when the first \<open>n\<close> values are
  below the bound and the next one is not.
\<close>

definition advance :: "real \<Rightarrow> real \<Rightarrow> nat \<Rightarrow> real" where
  "advance start step n = ((\<lambda>v. add64 v step) ^^ n) start"

definition rounds :: "real \<Rightarrow> real \<Rightarrow> real \<Rightarrow> nat \<Rightarrow> bool" where
  "rounds start step bound n \<longleftrightarrow>
     (\<forall>k \<in> {..<n}. advance start step k < bound) \<and> \<not> advance start step n < bound"

text \<open>
  The grid of \<open>nx\<close> columns and \<open>ny\<close> rows reached from \<open>(x0, y0)\<close> by those additions,
  column by column.
\<close>

definition grid :: "real \<Rightarrow> real \<Rightarrow> real \<Rightarrow> real \<Rightarrow> nat \<Rightarrow> nat \<Rightarrow> (real \<times> real) list" where
  "grid x0 y0 stepX stepY nx ny =
     concat (map (\<lambda>i. map (\<lambda>j. (advance x0 stepX i, advance y0 stepY j)) [0..<ny]) [0..<nx])"

text \<open>The tile columns and rows of a surface: the distinct abscissas and ordinates of its anchors.\<close>

definition tile_columns :: "Canvas \<Rightarrow> nat" where
  "tile_columns c = length (remdups (map fst (painted_anchors c)))"

definition tile_rows :: "Canvas \<Rightarrow> nat" where
  "tile_rows c = length (remdups (map snd (painted_anchors c)))"

section \<open>Concrete inputs\<close>

text \<open>
  A host in which a text is half its font size wide per character and every drawing
  operation costs four characters of base64.
\<close>

definition host :: Env where
  "host = \<lparr>env_getContext = True,
     env_measureText = (\<lambda>px t. div64 (mul64 px (real (length t))) 2),
     env_toDataURL = (\<lambda>c f q. ''data:'' @ format_string f @ '';base64,''
        @ concat (map (\<lambda>_. ''AAAA'') (cv_ops c))),
     env_random36 = ''0.4fzyo82mvyr'',
     env_createObjectURL = (\<lambda>f. ''blob:'' @ file_name f)\<rparr>"

text \<open>The same host at every invocation of a batch.\<close>

definition same_host :: "nat \<Rightarrow> Env" where
  "same_host i = host"

definition picture :: "string \<Rightarrow> nat \<Rightarrow> nat \<Rightarrow> File" where
  "picture n w h = \<lparr>file_name = n, file_readable = True, file_image = Some (w, h)\<rparr>"

definition corrupt :: "string \<Rightarrow> File" where
  "corrupt n = \<lparr>file_name = n, file_readable = True, file_image = None\<rparr>"

definition unreadable :: "string \<Rightarrow> File" where
  "unreadable n = \<lparr>file_name = n, file_readable = False, file_image = None\<rparr>"

definition mark :: "string \<Rightarrow> real \<Rightarrow> WatermarkPosition \<Rightarrow> real \<Rightarrow> real \<Rightarrow> WatermarkSettings" where
  "mark t fs pos pad gap = \<lparr>wm_text = t, wm_fontSize = fs, wm_color = ''#000000'',
     wm_opacity = fl (4 / 5), wm_position = pos, wm_padding = pad, wm_rotation = 0,
     wm_tilingGap = gap, wm_contrast = 0\<rparr>"

text \<open>The same, turned by 45 degrees and with a contrast of 50.\<close>

definition turned :: "WatermarkSettings \<Rightarrow> WatermarkSettings" where
  "turned wm = wm\<lparr>wm_rotation := 45, wm_contrast := 50\<rparr>"

definition jpeg_at :: "real \<Rightarrow> ResizeSettings" where
  "jpeg_at mw = \<lparr>rs_maxWidth = mw, rs_quality = fl (17 / 20), rs_format = image_jpeg\<rparr>"

definition batch :: "File list \<Rightarrow> AppState" where
  "batch fs = \<lparr>app_files = map (\<lambda>f. \<lparr>fd_file = f, fd_id = file_name f\<rparr>) fs,
     app_processedImages = [], app_isProcessing = False, app_console = []\<rparr>"

section \<open>Rounding to a double\<close>

lemma p2_pos [simp]: "0 < (2::real) powi k"
  by simp

lemma p2_less: "(2::real) powi a < 2 powi b \<longleftrightarrow> a < b"
proof
  assume "a < b" then show "(2::real) powi a < 2 powi b"
    by (intro power_int_strict_increasing) simp_all
next
  assume l: "(2::real) powi a < 2 powi b"
  show "a < b"
  proof (rule ccontr)
    assume "\<not> a < b"
    then have "(2::real) powi b \<le> 2 powi a"
      by (intro power_int_increasing) simp_all
    with l show False by simp
  qed
qed

lemma p2_le: "(2::real) powi a \<le> 2 powi b \<longleftrightarrow> a \<le> b"
  using p2_less [of b a] by (simp add: not_less [symmetric])

lemma p2_add: "(2::real) powi (a + b) = 2 powi a * 2 powi b"
  by (simp add: power_int_add)

lemma p2_nat: "0 \<le> k \<Longrightarrow> (2::real) powi k = 2 ^ nat k"
  by (simp add: power_int_def)

lemma p2_neg: "(2::real) powi (- k) = 1 / 2 powi k"
  by (simp add: power_int_minus field_simps)

lemma real_pow2_le: "2 ^ n \<le> m \<Longrightarrow> (2::real) ^ n \<le> real_of_int m"
  using of_int_le_iff [of "2 ^ n" m, where ?'a = real] by simp

lemma real_le_pow2: "m \<le> 2 ^ n \<Longrightarrow> real_of_int m \<le> (2::real) ^ n"
  using of_int_le_iff [of m "2 ^ n", where ?'a = real] by simp

lemma expo_bounds:
  assumes "0 < x"
  shows "2 powi (expo x) \<le> x" and "x < 2 powi (expo x + 1)"
proof -
  have "2 powi (expo x) \<le> x \<and> x < 2 powi (expo x + 1)"
  proof (cases "1 \<le> x")
    case True
    define m where "m = \<lfloor>x\<rfloor>"
    have m: "0 < m" using True by (simp add: m_def)
    have k: "1 \<le> bitlen m" using m by (simp add: bitlen_alt_def)
    from bitlen_bounds [OF m] have lo: "2 ^ nat (bitlen m - 1) \<le> m" and hi: "m < 2 ^ nat (bitlen m)"
      by auto
    have e: "expo x = bitlen m - 1" using True by (simp add: expo_def m_def)
    have "(2::real) ^ nat (bitlen m - 1) \<le> real_of_int m"
      by (rule real_pow2_le [OF lo])
    also have "\<dots> \<le> x" by (simp add: m_def)
    finally have A: "2 ^ nat (bitlen m - 1) \<le> x" .
    have "m + 1 \<le> 2 ^ nat (bitlen m)" using hi by simp
    then have "real_of_int (m + 1) \<le> (2::real) ^ nat (bitlen m)"
      by (rule real_le_pow2)
    moreover have "x < real_of_int (m + 1)" unfolding m_def by linarith
    ultimately have B: "x < 2 ^ nat (bitlen m)" by linarith
    have "2 powi (bitlen m - 1) = (2::real) ^ nat (bitlen m - 1)"
      using k by (simp add: p2_nat)
    moreover have "2 powi (bitlen m - 1 + 1) = (2::real) ^ nat (bitlen m)"
      using k by (simp add: p2_nat)
    ultimately show ?thesis using A B by (simp add: e)
  next
    case False
    define y where "y = 1 / x"
    define m where "m = \<lceil>y\<rceil> - 1"
    have y: "1 < y" using False assms by (simp add: y_def)
    then have "2 \<le> \<lceil>y\<rceil>" by linarith
    then have m: "0 < m" by (simp add: m_def)
    have k: "1 \<le> bitlen m" using m by (simp add: bitlen_alt_def)
    from bitlen_bounds [OF m] have lo: "2 ^ nat (bitlen m - 1) \<le> m" and hi: "m < 2 ^ nat (bitlen m)"
      by auto
    have e: "expo x = - bitlen m" using False by (simp add: expo_def m_def y_def)
    have my: "real_of_int m < y" and ym: "y \<le> real_of_int m + 1"
      unfolding m_def by linarith+
    have "(2::real) ^ nat (bitlen m - 1) \<le> real_of_int m"
      by (rule real_pow2_le [OF lo])
    with my have A: "2 ^ nat (bitlen m - 1) < y" by linarith
    have "m + 1 \<le> 2 ^ nat (bitlen m)" using hi by simp
    then have "real_of_int (m + 1) \<le> (2::real) ^ nat (bitlen m)"
      by (rule real_le_pow2)
    with ym have B: "y \<le> 2 ^ nat (bitlen m)" by simp
    have x: "x = 1 / y" using assms by (simp add: y_def)
    have "1 / 2 ^ nat (bitlen m) \<le> x"
      unfolding x using B y by (intro frac_le) simp_all
    moreover have "x < 1 / 2 ^ nat (bitlen m - 1)"
      unfolding x using A by (intro frac_less2) simp_all
    moreover have "2 powi (- bitlen m) = 1 / (2::real) ^ nat (bitlen m)"
      using k by (simp add: p2_neg p2_nat)
    moreover have "2 powi (- bitlen m + 1) = 1 / (2::real) ^ nat (bitlen m - 1)"
    proof -
      have "- bitlen m + 1 = - (bitlen m - 1)" by simp
      then show ?thesis
        using k by (simp only: p2_neg) (simp add: p2_nat)
    qed
    ultimately show ?thesis by (simp add: e)
  qed
  then show "2 powi (expo x) \<le> x" and "x < 2 powi (expo x + 1)" by simp_all
qed

lemma expo_unique:
  assumes "0 < x" "2 powi e \<le> x" "x < 2 powi (e + 1)"
  shows "expo x = e"
proof -
  have "(2::real) powi e < 2 powi (expo x + 1)"
    using assms(2) expo_bounds(2) [OF assms(1)] by linarith
  then have "e < expo x + 1" by (simp only: p2_less)
  moreover have "(2::real) powi (expo x) < 2 powi (e + 1)"
    using assms(3) expo_bounds(1) [OF assms(1)] by linarith
  then have "expo x < e + 1" by (simp only: p2_less)
  ultimately show ?thesis by simp
qed

lemma round_even_near: "\<bar>real_of_int (round_even r) - r\<bar> \<le> 1 / 2"
  unfolding round_even_def Let_def by (auto split: if_splits)

lemma round_even_of_int [simp]: "round_even (real_of_int n) = n"
  by (simp add: round_even_def)

lemma round_even_ge: "real_of_int n \<le> r \<Longrightarrow> n \<le> round_even r"
proof -
  assume "real_of_int n \<le> r"
  then have "n \<le> \<lfloor>r\<rfloor>" by (simp add: le_floor_iff)
  moreover have "\<lfloor>r\<rfloor> \<le> round_even r"
    by (simp add: round_even_def Let_def)
  ultimately show ?thesis by simp
qed

lemma round_even_le: "r \<le> real_of_int n \<Longrightarrow> round_even r \<le> n"
proof -
  assume le: "r \<le> real_of_int n"
  show ?thesis
  proof (cases "r = real_of_int \<lfloor>r\<rfloor>")
    case True
    then have "round_even r = \<lfloor>r\<rfloor>" by (simp add: round_even_def)
    moreover have "\<lfloor>r\<rfloor> \<le> n" using le by (simp add: floor_le_iff)
    ultimately show ?thesis by simp
  next
    case False
    then have "real_of_int \<lfloor>r\<rfloor> < r" by linarith
    with le have "\<lfloor>r\<rfloor> < n" by linarith
    moreover have "round_even r \<le> \<lfloor>r\<rfloor> + 1"
      by (simp add: round_even_def Let_def)
    ultimately show ?thesis by simp
  qed
qed

lemma round_even_neg: "round_even (- r) = - round_even r"
proof (cases "r = real_of_int \<lfloor>r\<rfloor>")
  case True
  then obtain n where "r = real_of_int n" by blast
  then have "- r = real_of_int (- n)" by simp
  then show ?thesis using \<open>r = real_of_int n\<close> by (simp only: round_even_of_int)
next
  case False
  then have lt: "real_of_int \<lfloor>r\<rfloor> < r" by linarith
  have fn: "\<lfloor>- r\<rfloor> = - \<lfloor>r\<rfloor> - 1"
    using lt by (intro floor_unique) linarith+
  have d: "- r - real_of_int \<lfloor>- r\<rfloor> = 1 - (r - real_of_int \<lfloor>r\<rfloor>)"
    by (simp add: fn)
  show ?thesis
    unfolding round_even_def Let_def d
    by (auto simp: fn)
qed

lemma quantum_pos [simp]: "0 < quantum x"
  by (simp add: quantum_def)

lemma quantum_neg [simp]: "quantum (- x) = quantum x"
  by (simp add: quantum_def)

lemma fl_0 [simp]: "fl 0 = 0"
  by (simp add: fl_def)

lemma fl_neg: "fl (- x) = - fl x"
  by (simp add: fl_def round_even_neg)

lemma fl_grid_ge:
  assumes "real_of_int n * quantum x \<le> x"
  shows "real_of_int n * quantum x \<le> fl x"
proof (cases "x = 0")
  case True
  with assms show ?thesis by simp
next
  case False
  from assms have "real_of_int n \<le> x / quantum x"
    by (simp add: pos_le_divide_eq)
  then have "n \<le> round_even (x / quantum x)" by (rule round_even_ge)
  then have "real_of_int n \<le> real_of_int (round_even (x / quantum x))" by simp
  then show ?thesis
    using False by (simp add: fl_def mult_right_mono)
qed

lemma fl_grid_le:
  assumes "x \<le> real_of_int n * quantum x"
  shows "fl x \<le> real_of_int n * quantum x"
proof -
  have "real_of_int (- n) * quantum (- x) \<le> - x" using assms by simp
  from fl_grid_ge [OF this] show ?thesis by (simp add: fl_neg)
qed

lemma fl_nonneg: "0 \<le> x \<Longrightarrow> 0 \<le> fl x"
  using fl_grid_ge [of 0 x] by simp

lemma fl_near: "\<bar>fl x - x\<bar> \<le> quantum x / 2"
proof (cases "x = 0")
  case True
  then show ?thesis using quantum_pos [of 0] by (simp add: less_eq_real_def)
next
  case False
  have "quantum x \<noteq> 0" using quantum_pos [of x] by linarith
  then have "fl x - x = (real_of_int (round_even (x / quantum x)) - x / quantum x) * quantum x"
    using False by (simp add: fl_def field_simps)
  then have "\<bar>fl x - x\<bar> = \<bar>real_of_int (round_even (x / quantum x)) - x / quantum x\<bar> * quantum x"
    using quantum_pos [of x] by (simp only: abs_mult abs_of_pos)
  also have "\<dots> \<le> 1 / 2 * quantum x"
    using quantum_pos [of x] by (intro mult_right_mono round_even_near) linarith
  finally show ?thesis by simp
qed

lemma quantum_half:
  assumes "x \<noteq> 0"
  shows "quantum x / 2 \<le> \<bar>x\<bar> * 2 powi (- 53) + 2 powi (- 1075)"
proof (cases "- 1022 \<le> expo \<bar>x\<bar>")
  case True
  have "(2::real) powi (expo \<bar>x\<bar> - 52) = 2 powi (expo \<bar>x\<bar> + - 53 + 1)"
    by simp
  also have "\<dots> = 2 powi (expo \<bar>x\<bar>) * 2 powi (- 53) * 2 powi 1"
    by (simp only: p2_add)
  finally have "(2::real) powi (expo \<bar>x\<bar> - 52) / 2 = 2 powi (expo \<bar>x\<bar>) * 2 powi (- 53)"
    by simp
  with True have "quantum x / 2 = 2 powi (expo \<bar>x\<bar>) * 2 powi (- 53)"
    by (simp add: quantum_def max_def)
  also have "\<dots> \<le> \<bar>x\<bar> * 2 powi (- 53)"
    using expo_bounds(1) [of "\<bar>x\<bar>"] assms by (intro mult_right_mono) simp_all
  finally show ?thesis by (simp add: add_increasing2)
next
  case False
  then have "quantum x / 2 = 2 powi (- 1075)"
    by (simp add: quantum_def max_def)
  then show ?thesis by simp
qed

lemma fl_error: "\<bar>fl x - x\<bar> \<le> \<bar>x\<bar> * 2 powi (- 53) + 2 powi (- 1075)"
proof (cases "x = 0")
  case True
  then show ?thesis by simp
next
  case False
  from fl_near [of x] quantum_half [OF False] show ?thesis by linarith
qed


lemma expo_le:
  assumes "0 < x" "x < 2 powi k"
  shows "expo x < k"
  using expo_bounds(1) [OF assms(1)] assms(2) p2_less [of "expo x" k] by linarith

lemma expo_ge:
  assumes "0 < x" "2 powi k \<le> x"
  shows "k \<le> expo x"
proof -
  have "(2::real) powi k < 2 powi (expo x + 1)"
    using expo_bounds(2) [OF assms(1)] assms(2) by linarith
  then show ?thesis by (simp only: p2_less)
qed

lemma quantum_small:
  assumes "x \<noteq> 0" "\<bar>x\<bar> < 2 ^ 53"
  obtains k where "quantum x * 2 ^ k = 1"
proof -
  have "expo \<bar>x\<bar> < 53"
    using assms by (intro expo_le) simp_all
  then have le: "max (expo \<bar>x\<bar>) (- 1022) - 52 \<le> 0" by simp
  define k where "k = nat (- (max (expo \<bar>x\<bar>) (- 1022) - 52))"
  have "quantum x = 2 powi (- int k)"
    using le by (simp add: quantum_def k_def)
  then have "quantum x * 2 ^ k = 1"
    by (simp add: p2_neg)
  then show ?thesis by (rule that)
qed

lemma fl_ge_int:
  assumes "real_of_int n \<le> z" and "real_of_int n \<le> 2 ^ 53" and "- (2 ^ 53) < z"
  shows "real_of_int n \<le> fl z"
proof (cases "z = 0")
  case True
  with assms show ?thesis by simp
next
  case False
  show ?thesis
  proof (cases "\<bar>z\<bar> < 2 ^ 53")
    case True
    from quantum_small [OF False True] obtain k where k: "quantum z * 2 ^ k = 1"
      by blast
    have "real_of_int (n * 2 ^ k) * quantum z = real_of_int n * (quantum z * 2 ^ k)"
      by (simp only: of_int_mult of_int_power of_int_numeral mult.assoc mult.commute [of "2 ^ k"])
    then have g: "real_of_int (n * 2 ^ k) * quantum z = real_of_int n"
      by (simp only: k mult_1_right)
    from fl_grid_ge [of "n * 2 ^ k" z] assms(1) show ?thesis
      unfolding g .
  next
    case big: False
    with assms(3) have zb: "2 ^ 53 \<le> z" by linarith
    then have zp: "0 < z" by (smt (verit) zero_less_power)
    have "(2::real) powi 53 \<le> \<bar>z\<bar>" using zb by simp
    then have e: "53 \<le> expo \<bar>z\<bar>" using zp by (intro expo_ge) simp_all
    then have q: "quantum z = 2 powi (expo \<bar>z\<bar> + - 52)"
      by (simp add: quantum_def max_def)
    have "(2::real) powi (expo \<bar>z\<bar>) = 2 powi (52 + (expo \<bar>z\<bar> + - 52))" by simp
    also have "\<dots> = real_of_int (2 ^ 52) * quantum z"
      unfolding q by (simp only: p2_add) simp
    finally have v: "(2::real) powi (expo \<bar>z\<bar>) = real_of_int (2 ^ 52) * quantum z" .
    have "real_of_int (2 ^ 52) * quantum z \<le> z"
      using expo_bounds(1) [of "\<bar>z\<bar>"] zp by (simp only: v [symmetric]) simp
    from fl_grid_ge [OF this] have "2 powi (expo \<bar>z\<bar>) \<le> fl z"
      by (simp only: v)
    moreover have "(2::real) powi 53 \<le> 2 powi (expo \<bar>z\<bar>)"
      using e by (simp only: p2_le)
    ultimately show ?thesis using assms(2) by simp
  qed
qed

lemma fl_le_int:
  assumes "z \<le> real_of_int n" and "- (2 ^ 53) \<le> real_of_int n" and "z < 2 ^ 53"
  shows "fl z \<le> real_of_int n"
proof -
  have "real_of_int (- n) \<le> fl (- z)"
    using assms by (intro fl_ge_int) simp_all
  then show ?thesis by (simp add: fl_neg)
qed

lemma fl_of_int:
  assumes "\<bar>real_of_int n\<bar> < 2 ^ 53"
  shows "fl (real_of_int n) = real_of_int n"
proof (rule antisym)
  show "fl (real_of_int n) \<le> real_of_int n"
    using assms by (intro fl_le_int) auto
  show "real_of_int n \<le> fl (real_of_int n)"
    using assms by (intro fl_ge_int) auto
qed

lemma fl_fix:
  assumes y: "y = real_of_int M * 2 powi j"
    and j: "max (expo \<bar>y\<bar>) (- 1022) - 52 \<le> j"
  shows "fl y = y"
proof (cases "y = 0")
  case True
  then show ?thesis by simp
next
  case False
  define E where "E = max (expo \<bar>y\<bar>) (- 1022) - 52"
  define n where "n = nat (j - E)"
  have q: "quantum y = 2 powi E" by (simp add: quantum_def E_def)
  have "j = int n + E" using j by (simp add: n_def E_def)
  then have "(2::real) powi j = 2 ^ n * 2 powi E"
    by (simp only: p2_add) simp
  then have yq: "y = real_of_int (M * 2 ^ n) * 2 powi E"
    by (simp add: y)
  then have "y / 2 powi E = real_of_int (M * 2 ^ n)"
    by simp
  then have "fl y = real_of_int (M * 2 ^ n) * 2 powi E"
    using False by (simp only: fl_def q round_even_of_int if_False)
  with yq show ?thesis by simp
qed

lemma fl_idem_pos:
  assumes "0 < x"
  shows "fl (fl x) = fl x"
proof -
  define e where "e = expo x"
  have b1: "2 powi e \<le> x" and b2: "x < 2 powi (e + 1)"
    using expo_bounds [OF assms] by (simp_all add: e_def)
  have x0: "x \<noteq> 0" using assms by simp
  define M where "M = round_even (x / quantum x)"
  have y: "fl x = real_of_int M * quantum x"
    using x0 by (simp add: fl_def M_def)
  show ?thesis
  proof (cases "- 1022 \<le> e")
    case True
    then have q: "quantum x = 2 powi (e + - 52)"
      using assms by (simp add: quantum_def e_def max_def)
    have lo: "(2::real) powi e = real_of_int (2 ^ 52) * quantum x"
    proof -
      have "(2::real) powi e = 2 powi (52 + (e + - 52))" by simp
      also have "\<dots> = real_of_int (2 ^ 52) * quantum x"
        unfolding q by (simp only: p2_add) simp
      finally show ?thesis .
    qed
    have hi: "(2::real) powi (e + 1) = real_of_int (2 ^ 53) * quantum x"
    proof -
      have "e + 1 = 53 + (e + - 52)" by simp
      then have "(2::real) powi (e + 1) = 2 powi (53 + (e + - 52))" by (rule arg_cong)
      also have "\<dots> = real_of_int (2 ^ 53) * quantum x"
        unfolding q by (simp only: p2_add) simp
      finally show ?thesis .
    qed
    have ylo: "2 powi e \<le> fl x"
      using fl_grid_ge [of "2 ^ 52" x] b1 by (simp only: lo [symmetric])
    have yhi: "fl x \<le> 2 powi (e + 1)"
      using fl_grid_le [of x "2 ^ 53"] b2 by (simp only: hi [symmetric])
    have yp: "0 < fl x" using ylo p2_pos [of e] by linarith
    have ay: "\<bar>fl x\<bar> = fl x" using yp by simp
    show ?thesis
    proof (cases "fl x < 2 powi (e + 1)")
      case True
      have "expo (fl x) = e" by (rule expo_unique [OF yp ylo True])
      then have "max (expo \<bar>fl x\<bar>) (- 1022) - 52 \<le> e + - 52"
        using \<open>- 1022 \<le> e\<close> by (simp add: ay)
      with y show ?thesis unfolding q by (intro fl_fix [where M = M])
    next
      case False
      with yhi have eq: "fl x = real_of_int 1 * 2 powi (e + 1)" by simp
      have "2 powi (e + 1) \<le> fl x" "fl x < 2 powi (e + 1 + 1)"
        using eq p2_less [of "e + 1" "e + 1 + 1"] by simp_all
      then have "expo (fl x) = e + 1" by (intro expo_unique [OF yp])
      then have "max (expo \<bar>fl x\<bar>) (- 1022) - 52 \<le> e + 1"
        using \<open>- 1022 \<le> e\<close> by (simp add: ay)
      with eq show ?thesis by (intro fl_fix [where M = 1])
    qed
  next
    case False
    then have q: "quantum x = 2 powi (- 1074)"
      using assms by (simp add: quantum_def e_def max_def)
    have hi: "(2::real) powi (- 1022) = real_of_int (2 ^ 52) * quantum x"
    proof -
      have "(2::real) powi (- 1022) = 2 powi (52 + (- 1074))" by simp
      also have "\<dots> = real_of_int (2 ^ 52) * quantum x"
        unfolding q by (simp only: p2_add) simp
      finally show ?thesis .
    qed
    have "(2::real) powi (e + 1) \<le> 2 powi (- 1022)"
      using False by (simp only: p2_le)
    with b2 have "x \<le> 2 powi (- 1022)" by linarith
    then have yhi: "fl x \<le> 2 powi (- 1022)"
      using fl_grid_le [of x "2 ^ 52"] by (simp only: hi [symmetric])
    have y0: "0 \<le> fl x" using assms by (intro fl_nonneg) simp
    show ?thesis
    proof (cases "fl x = 0")
      case True
      then show ?thesis by simp
    next
      case nz: False
      with y0 have yp: "0 < fl x" by simp
      have "(2::real) powi (- 1022) < 2 powi (- 1021)" by (simp only: p2_less)
      with yhi have "fl x < 2 powi (- 1021)" by linarith
      from expo_le [OF yp this] have "max (expo \<bar>fl x\<bar>) (- 1022) - 52 \<le> - 1074"
        using yp by simp
      with y show ?thesis unfolding q by (intro fl_fix [where M = M])
    qed
  qed
qed

lemma fl_idem [simp]: "fl (fl x) = fl x"
proof (cases "0 < x")
  case True
  then show ?thesis by (rule fl_idem_pos)
next
  case False
  show ?thesis
  proof (cases "x = 0")
    case True
    then show ?thesis by simp
  next
    case nz: False
    with False have "0 < - x" by simp
    from fl_idem_pos [OF this] show ?thesis by (simp add: fl_neg)
  qed
qed

lemma expo_double:
  assumes "0 < x"
  shows "expo (2 * x) = expo x + 1"
proof (rule expo_unique)
  show "0 < 2 * x" using assms by simp
  have "(2::real) powi (expo x + 1) = 2 powi (expo x) * 2" by (simp only: p2_add) simp
  then show "2 powi (expo x + 1) \<le> 2 * x"
    using expo_bounds(1) [OF assms] by simp
  have "(2::real) powi (expo x + 1 + 1) = 2 powi (expo x + 1) * 2" by (simp only: p2_add) simp
  then show "2 * x < 2 powi (expo x + 1 + 1)"
    using expo_bounds(2) [OF assms] by simp
qed

lemma fl_double:
  assumes "fl x = x"
  shows "fl (2 * x) = 2 * x"
proof (cases "x = 0")
  case True
  then show ?thesis by simp
next
  case False
  define E where "E = max (expo \<bar>x\<bar>) (- 1022) - 52"
  define M where "M = round_even (x / quantum x)"
  have q: "quantum x = 2 powi E" by (simp add: quantum_def E_def)
  have x: "x = real_of_int M * 2 powi E"
    using assms False by (simp add: fl_def M_def q)
  have "(2::real) powi (E + 1) = 2 powi E * 2" by (simp only: p2_add) simp
  then have x2: "2 * x = real_of_int M * 2 powi (E + 1)"
    using x by simp
  have "expo \<bar>2 * x\<bar> = expo \<bar>x\<bar> + 1"
    using expo_double [of "\<bar>x\<bar>"] False by (simp add: abs_mult)
  then have "max (expo \<bar>2 * x\<bar>) (- 1022) - 52 \<le> E + 1"
    by (simp add: E_def)
  with x2 show ?thesis by (intro fl_fix [where M = M])
qed

lemma round_even_mono:
  assumes "r \<le> s"
  shows "round_even r \<le> round_even s"
proof (cases "real_of_int (round_even r) \<le> s")
  case True
  then show ?thesis by (rule round_even_ge)
next
  case False
  then have s: "s < real_of_int (round_even r)" by simp
  have up: "round_even r \<le> \<lfloor>r\<rfloor> + 1"
    by (simp add: round_even_def Let_def)
  have "\<lfloor>r\<rfloor> \<le> \<lfloor>s\<rfloor>" using assms by (rule floor_mono)
  moreover have "\<lfloor>s\<rfloor> < round_even r" using s by (simp add: floor_less_iff)
  ultimately have fl_eq: "\<lfloor>s\<rfloor> = \<lfloor>r\<rfloor>" and re: "round_even r = \<lfloor>r\<rfloor> + 1"
    using up by linarith+
  from re have "\<not> r - of_int \<lfloor>r\<rfloor> < 1 / 2"
    by (auto simp: round_even_def Let_def split: if_splits)
  then have d: "1 / 2 \<le> r - of_int \<lfloor>r\<rfloor>" by simp
  show ?thesis
  proof (cases "r - of_int \<lfloor>r\<rfloor> = 1 / 2")
    case True
    with re have odd: "odd \<lfloor>r\<rfloor>"
      by (auto simp: round_even_def Let_def split: if_splits)
    have "1 / 2 \<le> s - of_int \<lfloor>s\<rfloor>" using d assms fl_eq by simp
    then have "round_even s = \<lfloor>s\<rfloor> + 1"
      using odd fl_eq by (auto simp: round_even_def Let_def)
    then show ?thesis using re fl_eq by simp
  next
    case False
    with d have "1 / 2 < r - of_int \<lfloor>r\<rfloor>" by simp
    then have "1 / 2 < s - of_int \<lfloor>s\<rfloor>" using assms fl_eq by simp
    then have "round_even s = \<lfloor>s\<rfloor> + 1"
      by (auto simp: round_even_def Let_def)
    then show ?thesis using re fl_eq by simp
  qed
qed

lemma expo_mono:
  assumes "0 < x" "x \<le> y"
  shows "expo x \<le> expo y"
proof -
  have "2 powi (expo x) \<le> y" using expo_bounds(1) [OF assms(1)] assms(2) by simp
  then show ?thesis using assms by (intro expo_ge) simp_all
qed

lemma fl_mono_pos:
  assumes "0 < x" "x \<le> y"
  shows "fl x \<le> fl y"
proof (cases "max (expo x) (- 1022) = max (expo y) (- 1022)")
  case True
  then have q: "quantum y = quantum x"
    using assms by (simp add: quantum_def)
  have "x / quantum x \<le> y / quantum x"
    using assms(2) by (intro divide_right_mono) (simp_all add: less_eq_real_def)
  then have "round_even (x / quantum x) \<le> round_even (y / quantum x)"
    by (rule round_even_mono)
  then have "real_of_int (round_even (x / quantum x)) \<le> real_of_int (round_even (y / quantum x))"
    by simp
  then have "real_of_int (round_even (x / quantum x)) * quantum x
      \<le> real_of_int (round_even (y / quantum x)) * quantum x"
    by (rule mult_right_mono) (simp add: less_eq_real_def)
  then show ?thesis using assms by (simp add: fl_def q)
next
  case False
  have y: "0 < y" using assms by simp
  have le: "expo x \<le> expo y" by (rule expo_mono [OF assms])
  with False have lt: "max (expo x) (- 1022) < expo y" and ny: "- 1022 < expo y"
    by linarith+
  define P :: real where "P = 2 powi (expo y)"
  have xP: "x \<le> P"
  proof -
    have "x < 2 powi (expo x + 1)" by (rule expo_bounds(2) [OF assms(1)])
    also have "\<dots> \<le> 2 powi (expo y)" using lt by (simp only: p2_le)
    finally show ?thesis by (simp add: P_def)
  qed
  have Py: "P \<le> y" unfolding P_def by (rule expo_bounds(1) [OF y])
  have qx: "quantum x = 2 powi (max (expo x) (- 1022) - 52)"
    using assms(1) by (simp add: quantum_def)
  have qy: "quantum y = 2 powi (expo y - 52)"
    using y ny by (simp add: quantum_def max_def)
  define k where "k = nat (expo y - (max (expo x) (- 1022) - 52))"
  have Px: "P = real_of_int (2 ^ k) * quantum x"
  proof -
    have "expo y = int k + (max (expo x) (- 1022) - 52)"
      using lt unfolding k_def by linarith
    then have "P = 2 powi (int k) * quantum x"
      unfolding P_def qx by (simp only: p2_add [symmetric])
    then show ?thesis by (simp add: p2_nat)
  qed
  have Pq: "P = real_of_int (2 ^ 52) * quantum y"
  proof -
    have "expo y = 52 + (expo y - 52)" by simp
    then have "P = 2 powi 52 * quantum y"
      unfolding P_def qy by (simp only: p2_add [symmetric])
    then show ?thesis by (simp add: p2_nat)
  qed
  have "fl x \<le> P"
    using fl_grid_le [of x "2 ^ k"] xP unfolding Px [symmetric] by simp
  moreover have "P \<le> fl y"
    using fl_grid_ge [of "2 ^ 52" y] Py unfolding Pq [symmetric] by simp
  ultimately show ?thesis by simp
qed

lemma fl_mono:
  assumes "x \<le> y"
  shows "fl x \<le> fl y"
proof -
  consider "0 < x" | "x \<le> 0" "0 \<le> y" | "y < 0" by linarith
  then show ?thesis
  proof cases
    case 1
    then show ?thesis using assms by (rule fl_mono_pos)
  next
    case 2
    have "fl x \<le> 0" using fl_nonneg [of "- x"] 2(1) by (simp add: fl_neg)
    moreover have "0 \<le> fl y" using 2(2) by (rule fl_nonneg)
    ultimately show ?thesis by simp
  next
    case 3
    have "fl (- y) \<le> fl (- x)" using 3 assms by (intro fl_mono_pos) simp_all
    then show ?thesis by (simp add: fl_neg)
  qed
qed

section \<open>The drawing primitive and the tiled loops\<close>

lemma drawWatermarkAt_eq:
  "drawWatermarkAt wm tw x y c = c\<lparr>cv_ops := cv_ops c @ [stamp wm tw (cv_state c) (x, y)]\<rparr>"
  by (simp add: drawWatermarkAt_def save_def translate_def rotate_ctx_def set_filter_contrast_def
      fillText_def restore_def stamp_def Let_def)

lemma op_anchor_stamp: "op_anchor (stamp wm tw s a) = [a]"
  by (simp add: stamp_def)

lemma advance_0 [simp]: "advance start step 0 = start"
  by (simp add: advance_def)

lemma advance_Suc: "advance start step (Suc n) = add64 (advance start step n) step"
  by (simp add: advance_def)

lemma advance_shift: "advance start step (Suc n) = advance (add64 start step) step n"
  using funpow_swap1 [of "\<lambda>v. add64 v step" n start] by (simp add: advance_def)

lemma rounds_0: "rounds start step bound 0 \<longleftrightarrow> \<not> start < bound"
  by (simp add: rounds_def)

lemma rounds_Suc:
  "rounds start step bound (Suc n) \<longleftrightarrow> start < bound \<and> rounds (add64 start step) step bound n"
proof -
  have "(\<forall>k \<in> {..<Suc n}. advance start step k < bound)
      \<longleftrightarrow> start < bound \<and> (\<forall>k \<in> {..<n}. advance (add64 start step) step k < bound)"
  proof (intro iffI conjI ballI)
    assume a: "\<forall>k \<in> {..<Suc n}. advance start step k < bound"
    from a have "advance start step 0 < bound" by blast
    then show "start < bound" by simp
    fix k assume "k \<in> {..<n}"
    then have "Suc k \<in> {..<Suc n}" by simp
    with a have "advance start step (Suc k) < bound" by blast
    then show "advance (add64 start step) step k < bound" by (simp only: advance_shift)
  next
    fix k
    assume a: "start < bound \<and> (\<forall>k \<in> {..<n}. advance (add64 start step) step k < bound)"
      and k: "k \<in> {..<Suc n}"
    show "advance start step k < bound"
    proof (cases k)
      case 0
      with a show ?thesis by simp
    next
      case (Suc j)
      with k have "j \<in> {..<n}" by simp
      with a have "advance (add64 start step) step j < bound" by blast
      then show ?thesis by (simp only: Suc advance_shift)
    qed
  qed
  then show ?thesis
    unfolding rounds_def by (simp only: advance_shift) blast
qed

lemma rounds_unique:
  assumes "rounds start step bound n" "rounds start step bound m"
  shows "n = m"
proof (rule ccontr)
  assume "n \<noteq> m"
  then consider "n < m" | "m < n" by linarith
  then show False
  proof cases
    case 1
    then have "advance start step n < bound" using assms(2) by (simp add: rounds_def)
    with assms(1) show False by (simp add: rounds_def)
  next
    case 2
    then have "advance start step m < bound" using assms(1) by (simp add: rounds_def)
    with assms(2) show False by (simp add: rounds_def)
  qed
qed

lemma less_rounds_iff:
  assumes "rounds start step bound n"
  shows "i < n \<longleftrightarrow> (\<forall>k \<le> i. advance start step k < bound)"
proof
  assume "i < n"
  then show "\<forall>k \<le> i. advance start step k < bound"
    using assms by (simp add: rounds_def)
next
  assume a: "\<forall>k \<le> i. advance start step k < bound"
  show "i < n"
  proof (rule ccontr)
    assume "\<not> i < n"
    then have "n \<le> i" by simp
    with a have "advance start step n < bound" by blast
    with assms show False by (simp add: rounds_def)
  qed
qed

text \<open>The inner loop, when it makes \<open>n\<close> rounds, paints one column of \<open>n\<close> anchors.\<close>

lemma loop_y_rounds:
  assumes "rounds y stepY boundY n"
  shows "loop_y wm tw x y boundY stepY c =
    Some (c\<lparr>cv_ops := cv_ops c @
        map (\<lambda>j. stamp wm tw (cv_state c) (x, advance y stepY j)) [0..<n]\<rparr>)"
  using assms
proof (induction n arbitrary: y c)
  case 0
  then have "\<not> y < boundY" by (simp add: rounds_0)
  then show ?case
    apply (subst loop_y.simps)
    apply simp
    done
next
  case (Suc n)
  then have lt: "y < boundY" and r: "rounds (add64 y stepY) stepY boundY n"
    by (simp_all add: rounds_Suc)
  have shift: "[0..<Suc n] = 0 # map Suc [0..<n]"
    by (simp add: upt_conv_Cons map_Suc_upt del: upt_Suc)
  show ?case
    apply (subst loop_y.simps)
    apply (simp only: lt if_True Suc.IH [OF r] shift)
    apply (simp add: drawWatermarkAt_eq comp_def advance_shift del: upt_Suc)
    done
qed

lemma grid_0 [simp]: "grid x0 y0 sx sy 0 ny = []"
  by (simp add: grid_def)

lemma grid_Suc:
  "grid x0 y0 sx sy (Suc nx) ny =
     map (\<lambda>j. (x0, advance y0 sy j)) [0..<ny] @ grid (add64 x0 sx) y0 sx sy nx ny"
proof -
  have shift: "[0..<Suc nx] = 0 # map Suc [0..<nx]"
    by (simp add: upt_conv_Cons map_Suc_upt del: upt_Suc)
  show ?thesis
    unfolding grid_def shift by (simp add: comp_def advance_shift del: upt_Suc)
qed

text \<open>The outer loop, when both loops make their rounds, paints the grid column by column.\<close>

lemma loop_x_rounds:
  assumes "rounds x stepX boundX nx" and "rounds (- th) stepY boundY ny"
  shows "loop_x wm tw th x boundX stepX boundY stepY c =
    Some (c\<lparr>cv_ops := cv_ops c @
        map (stamp wm tw (cv_state c)) (grid x (- th) stepX stepY nx ny)\<rparr>)"
  using assms(1)
proof (induction nx arbitrary: x c)
  case 0
  then have "\<not> x < boundX" by (simp add: rounds_0)
  then show ?case by (subst loop_x.simps) simp
next
  case (Suc nx)
  then have lt: "x < boundX" and r: "rounds (add64 x stepX) stepX boundX nx"
    by (simp_all add: rounds_Suc)
  show ?case
    apply (subst loop_x.simps)
    apply (simp only: lt if_True loop_y_rounds [OF assms(2)] Option.bind.simps Suc.IH [OF r]
        grid_Suc)
    apply (simp add: comp_def)
    done
qed

lemma loop_x_skipped:
  assumes "\<not> x < boundX"
  shows "loop_x wm tw th x boundX stepX boundY stepY c = Some c"
  using assms by (subst loop_x.simps) simp

text \<open>A loop that returns has made some number of rounds.\<close>

lemma loop_y_returns:
  assumes ret: "loop_y wm tw x y boundY stepY c = Some c'"
  shows "\<exists>n. rounds y stepY boundY n"
proof -
  have step: "\<exists>n. rounds y' stepY' boundY' n"
    if ih: "\<And>a1 a2 a3 a4 a5 a6 a7 r. f a1 a2 a3 a4 a5 a6 a7 = Some r \<Longrightarrow>
          \<exists>n. rounds a4 a6 a5 n"
      and body: "(if y' < boundY'
          then f wm' tw' x' (add64 y' stepY') boundY' stepY' (drawWatermarkAt wm' tw' x' y' d)
          else Some d) = Some d'"
    for f :: "WatermarkSettings \<Rightarrow> real \<Rightarrow> real \<Rightarrow> real \<Rightarrow> real \<Rightarrow> real \<Rightarrow> Canvas \<Rightarrow> Canvas option"
      and wm' tw' x' y' boundY' stepY' d d'
  proof (cases "y' < boundY'")
    case True
    with body have "f wm' tw' x' (add64 y' stepY') boundY' stepY'
        (drawWatermarkAt wm' tw' x' y' d) = Some d'"
      by simp
    from ih [OF this] obtain n where "rounds (add64 y' stepY') stepY' boundY' n" ..
    with True have "rounds y' stepY' boundY' (Suc n)" by (simp add: rounds_Suc)
    then show ?thesis ..
  next
    case False
    then have "rounds y' stepY' boundY' 0" by (simp add: rounds_0)
    then show ?thesis ..
  qed
  show ?thesis
    using loop_y.raw_induct [where P = "\<lambda>wm tw x y boundY stepY c c'.
        \<exists>n. rounds y stepY boundY n"
        and xa = "((((((wm, tw), x), y), boundY), stepY), c)" and ya = c',
        simplified, OF step ret] .
qed

lemma loop_x_returns:
  assumes ret: "loop_x wm tw th x boundX stepX boundY stepY c = Some c'"
  shows "\<exists>nx. rounds x stepX boundX nx \<and> (0 < nx \<longrightarrow> (\<exists>ny. rounds (- th) stepY boundY ny))"
proof -
  have step: "\<exists>nx. rounds x' stepX' boundX' nx
        \<and> (0 < nx \<longrightarrow> (\<exists>ny. rounds (- th') stepY' boundY' ny))"
    if ih: "\<And>a1 a2 a3 a4 a5 a6 a7 a8 a9 y.
          f a1 a2 a3 a4 a5 a6 a7 a8 a9 = Some y \<Longrightarrow>
          \<exists>nx. rounds a4 a6 a5 nx \<and> (0 < nx \<longrightarrow> (\<exists>ny. rounds (- a3) a8 a7 ny))"
      and body: "(if x' < boundX'
          then Option.bind (loop_y wm' tw' x' (- th') boundY' stepY' d)
                 (f wm' tw' th' (add64 x' stepX') boundX' stepX' boundY' stepY')
          else Some d) = Some d'"
    for f :: "WatermarkSettings \<Rightarrow> real \<Rightarrow> real \<Rightarrow> real \<Rightarrow> real \<Rightarrow> real \<Rightarrow> real \<Rightarrow> real
          \<Rightarrow> Canvas \<Rightarrow> Canvas option"
      and wm' tw' th' x' boundX' stepX' boundY' stepY' d d'
  proof (cases "x' < boundX'")
    case True
    with body obtain d1 where
      col: "loop_y wm' tw' x' (- th') boundY' stepY' d = Some d1"
      and rest: "f wm' tw' th' (add64 x' stepX') boundX' stepX' boundY' stepY' d1 = Some d'"
      by (auto simp: bind_eq_Some_conv)
    from loop_y_returns [OF col] obtain ny where ny: "rounds (- th') stepY' boundY' ny" ..
    from ih [OF rest] obtain nx where "rounds (add64 x' stepX') stepX' boundX' nx" by blast
    with True have "rounds x' stepX' boundX' (Suc nx)" by (simp add: rounds_Suc)
    with ny show ?thesis by blast
  next
    case False
    then have "rounds x' stepX' boundX' 0" by (simp add: rounds_0)
    then show ?thesis by blast
  qed
  show ?thesis
    using loop_x.raw_induct [where P = "\<lambda>wm tw th x boundX stepX boundY stepY c c'.
        \<exists>nx. rounds x stepX boundX nx \<and> (0 < nx \<longrightarrow> (\<exists>ny. rounds (- th) stepY boundY ny))"
        and xa = "((((((((wm, tw), th), x), boundX), stepX), boundY), stepY), c)" and y = c',
        simplified, OF step ret] .
qed

lemma loop_x_result:
  assumes ret: "loop_x wm tw th x boundX stepX boundY stepY c = Some c'"
  shows "\<exists>nx ny. rounds x stepX boundX nx \<and> (0 < nx \<longrightarrow> rounds (- th) stepY boundY ny)
    \<and> c' = c\<lparr>cv_ops := cv_ops c @
          map (stamp wm tw (cv_state c)) (grid x (- th) stepX stepY nx ny)\<rparr>"
proof -
  from loop_x_returns [OF ret] obtain nx where nx: "rounds x stepX boundX nx"
    and ny: "0 < nx \<longrightarrow> (\<exists>ny. rounds (- th) stepY boundY ny)"
    by blast
  show ?thesis
  proof (cases nx)
    case 0
    with nx have never: "\<not> x < boundX" by (simp add: rounds_0)
    from ret have "c' = c" unfolding loop_x_skipped [OF never] by simp
    then have "c' = c\<lparr>cv_ops := cv_ops c @
        map (stamp wm tw (cv_state c)) (grid x (- th) stepX stepY 0 0)\<rparr>"
      by simp
    with nx 0 show ?thesis by blast
  next
    case (Suc k)
    with ny obtain ny where r: "rounds (- th) stepY boundY ny" by auto
    from ret have "c' = c\<lparr>cv_ops := cv_ops c @
        map (stamp wm tw (cv_state c)) (grid x (- th) stepX stepY nx ny)\<rparr>"
      unfolding loop_x_rounds [OF nx r] by simp
    with nx r show ?thesis by blast
  qed
qed

text \<open>
  With a step that leaves \<open>x\<close> where it is (a step of 0, or one too small to count at
  \<open>x\<close>), the outer loop returns only if it never starts.
\<close>

lemma loop_x_stuck:
  assumes ret: "loop_x wm tw th x boundX stepX boundY stepY c = Some c'"
    and s: "add64 x stepX = x"
  shows "\<not> x < boundX"
proof -
  from loop_x_returns [OF ret] obtain nx where nx: "rounds x stepX boundX nx" by blast
  have "advance x stepX k = x" for k
    by (induction k) (simp_all add: advance_Suc s)
  with nx show ?thesis by (simp add: rounds_def)
qed

text \<open>
  A step of at least 1 moves a variable between \<open>- 2 ^ 53\<close> and \<open>2 ^ 53\<close> past the
  next integer, so the loop ends.
\<close>

lemma rounds_exist:
  assumes s: "1 \<le> step" and b: "bound \<le> 2 ^ 53"
  shows "- (2 ^ 53) \<le> start \<Longrightarrow> \<exists>n. rounds start step bound n"
proof (induction k \<equiv> "nat (2 ^ 53 - \<lfloor>start\<rfloor>)" arbitrary: start rule: less_induct)
  case less
  show ?case
  proof (cases "start < bound")
    case False
    then have "rounds start step bound 0" by (simp add: rounds_0)
    then show ?thesis ..
  next
    case True
    define n where "n = \<lfloor>start\<rfloor> + 1"
    have lt53: "start < 2 ^ 53" using True b by simp
    then have fl53: "\<lfloor>start\<rfloor> < 2 ^ 53"
      using floor_less_iff [of start "2 ^ 53"] by simp
    have n1: "real_of_int n \<le> start + step"
      using s unfolding n_def by linarith
    have "n \<le> 2 ^ 53" using fl53 by (simp add: n_def)
    then have n2: "real_of_int n \<le> 2 ^ 53" by (rule real_le_pow2)
    have n3: "- (2 ^ 53) < start + step" using less.prems s by linarith
    have ge: "real_of_int n \<le> add64 start step"
      unfolding add64_def by (rule fl_ge_int [OF n1 n2 n3])
    then have fl: "n \<le> \<lfloor>add64 start step\<rfloor>" by (simp add: le_floor_iff)
    have lo: "- (2 ^ 53) \<le> add64 start step"
    proof -
      have "start < real_of_int n" unfolding n_def by linarith
      with less.prems ge show ?thesis by linarith
    qed
    have "nat (2 ^ 53 - \<lfloor>add64 start step\<rfloor>) < nat (2 ^ 53 - \<lfloor>start\<rfloor>)"
      using fl fl53 by (simp add: n_def)
    from less.hyps [OF this lo] obtain m where "rounds (add64 start step) step bound m" ..
    with True have "rounds start step bound (Suc m)" by (simp add: rounds_Suc)
    then show ?thesis ..
  qed
qed

text \<open>With a step that is not negative, the variable of a loop never decreases.\<close>

lemma add64_ge:
  assumes "fl x = x" "0 \<le> s"
  shows "x \<le> add64 x s"
proof -
  have "fl x \<le> fl (x + s)" using assms(2) by (intro fl_mono) simp
  then show ?thesis by (simp add: add64_def assms(1))
qed

lemma advance_fl: "fl start = start \<Longrightarrow> fl (advance start step n) = advance start step n"
  by (cases n) (simp_all add: advance_Suc add64_def)

lemma advance_mono:
  assumes "fl start = start" "0 \<le> step" "i \<le> j"
  shows "advance start step i \<le> advance start step j"
  using assms(3)
proof (induction j)
  case 0
  then show ?case by simp
next
  case (Suc j)
  show ?case
  proof (cases "i = Suc j")
    case True
    then show ?thesis by simp
  next
    case False
    with Suc.prems have "i \<le> j" by simp
    then have "advance start step i \<le> advance start step j" by (rule Suc.IH)
    also have "\<dots> \<le> advance start step (Suc j)"
      unfolding advance_Suc by (rule add64_ge [OF advance_fl [OF assms(1)] assms(2)])
    finally show ?thesis .
  qed
qed

lemma less_rounds_mono_iff:
  assumes "rounds start step bound n" "fl start = start" "0 \<le> step"
  shows "i < n \<longleftrightarrow> advance start step i < bound"
proof
  assume "i < n"
  then show "advance start step i < bound" using assms(1) by (simp add: rounds_def)
next
  assume a: "advance start step i < bound"
  show "i < n"
  proof (rule ccontr)
    assume "\<not> i < n"
    then have "n \<le> i" by simp
    from advance_mono [OF assms(2,3) this] a have "advance start step n < bound" by simp
    with assms(1) show False by (simp add: rounds_def)
  qed
qed

lemma mem_grid:
  "p \<in> set (grid x0 y0 sx sy nx ny)
     \<longleftrightarrow> (\<exists>i j. i < nx \<and> j < ny \<and> p = (advance x0 sx i, advance y0 sy j))"
proof
  assume "p \<in> set (grid x0 y0 sx sy nx ny)"
  then obtain i j where "i \<in> set [0..<nx]" "j \<in> set [0..<ny]"
    "p = (advance x0 sx i, advance y0 sy j)"
    by (auto simp: grid_def)
  then show "\<exists>i j. i < nx \<and> j < ny \<and> p = (advance x0 sx i, advance y0 sy j)"
    by (intro exI [of _ i] exI [of _ j]) simp
next
  assume "\<exists>i j. i < nx \<and> j < ny \<and> p = (advance x0 sx i, advance y0 sy j)"
  then obtain i j where i: "i < nx" and j: "j < ny"
    and p: "p = (advance x0 sx i, advance y0 sy j)"
    by blast
  have "p \<in> set (map (\<lambda>j. (advance x0 sx i, advance y0 sy j)) [0..<ny])"
    unfolding p set_map using j by (intro image_eqI [where x = j]) simp_all
  moreover have "map (\<lambda>j. (advance x0 sx i, advance y0 sy j)) [0..<ny]
      \<in> set (map (\<lambda>i. map (\<lambda>j. (advance x0 sx i, advance y0 sy j)) [0..<ny]) [0..<nx])"
    unfolding set_map using i by (intro image_eqI [where x = i]) simp_all
  ultimately show "p \<in> set (grid x0 y0 sx sy nx ny)"
    unfolding grid_def set_concat by blast
qed

section \<open>Doubles by computation\<close>

lemma bitlen_pos: "0 < x \<Longrightarrow> bitlen x = bitlen (x div 2) + 1"
  by (subst compute_bitlen) simp

lemma bitlen_nonpos: "x \<le> 0 \<Longrightarrow> bitlen x = 0"
  by (subst compute_bitlen) simp

lemmas fl_eval = fl_def quantum_def expo_def round_even_def Let_def bitlen_pos bitlen_nonpos
  add64_def sub64_def mul64_def div64_def

lemma host_simps:
  "env_getContext host"
  "env_measureText host px t = div64 (mul64 px (real (length t))) 2"
  "env_toDataURL host c f q
     = ''data:'' @ format_string f @ '';base64,'' @ concat (map (\<lambda>_. ''AAAA'') (cv_ops c))"
  "env_random36 host = ''0.4fzyo82mvyr''"
  "env_createObjectURL host file = ''blob:'' @ file_name file"
  by (simp_all add: host_def)

lemma fl_small [simp]: "fl 1 = 1" "fl 2 = 2" "fl 12 = 12"
  by (simp_all add: fl_eval)

section \<open>The pipeline, unfolded\<close>

lemma styledCanvas_ops:
  "cv_ops (styledCanvas w h wm rs) =
     [DrawImage w h 0 0 (fst (targetSize w h rs)) (snd (targetSize w h rs))]"
  by (simp add: styledCanvas_def Let_def split_beta set_width_def set_height_def drawImage_def
      set_globalAlpha_def set_fillStyle_def set_font_def set_textBaseline_def)

lemma styledCanvas_stack: "cv_stack (styledCanvas w h wm rs) = []"
  by (simp add: styledCanvas_def Let_def split_beta set_width_def set_height_def drawImage_def
      set_globalAlpha_def set_fillStyle_def set_font_def set_textBaseline_def)

lemma styledCanvas_state:
  "cv_state (styledCanvas w h wm rs) =
     default_state\<lparr>ds_globalAlpha :=
         (if 0 \<le> wm_opacity wm \<and> wm_opacity wm \<le> 1 then wm_opacity wm else 1),
       ds_fillStyle := wm_color wm,
       ds_font := actualFontSize wm (fst (targetSize w h rs)),
       ds_textBaseline := ''middle''\<rparr>"
  by (simp add: styledCanvas_def Let_def split_beta set_width_def set_height_def drawImage_def
      set_globalAlpha_def set_fillStyle_def set_font_def set_textBaseline_def default_state_def)

lemma renderCanvas_single:
  assumes "wm_position wm \<noteq> TILED"
  shows "renderCanvas env w h wm rs =
    Some ((styledCanvas w h wm rs)\<lparr>cv_ops := cv_ops (styledCanvas w h wm rs) @
      [stamp wm (textWidth env wm (fst (targetSize w h rs))) (cv_state (styledCanvas w h wm rs))
        (single_anchor (wm_position wm) (fst (targetSize w h rs)) (snd (targetSize w h rs))
           (padding wm (fst (targetSize w h rs))) (textWidth env wm (fst (targetSize w h rs)))
           (actualFontSize wm (fst (targetSize w h rs))))]\<rparr>)"
  using assms by (simp add: renderCanvas_def Let_def split_beta drawWatermarkAt_eq)

lemma renderCanvas_tiled:
  assumes "wm_position wm = TILED"
  shows "renderCanvas env w h wm rs =
    loop_x wm (textWidth env wm (fst (targetSize w h rs)))
      (actualFontSize wm (fst (targetSize w h rs)))
      (- textWidth env wm (fst (targetSize w h rs)))
      (add64 (fst (targetSize w h rs)) (textWidth env wm (fst (targetSize w h rs))))
      (tile_step (textWidth env wm (fst (targetSize w h rs))) (wm_tilingGap wm))
      (add64 (snd (targetSize w h rs)) (actualFontSize wm (fst (targetSize w h rs))))
      (tile_step (actualFontSize wm (fst (targetSize w h rs))) (wm_tilingGap wm))
      (styledCanvas w h wm rs)"
  using assms by (simp add: renderCanvas_def Let_def split_beta)

lemma processImage_eq:
  assumes "file_readable file" "file_image file = Some (w, h)" "env_getContext env"
  shows "processImage env file wm rs =
    map_option (\<lambda>c. Resolved \<lparr>pi_id = drop 7 (env_random36 env),
        pi_originalName = file_name file,
        pi_previewUrl = env_createObjectURL env file,
        pi_processedUrl = env_toDataURL env c (rs_format rs) (rs_quality rs),
        pi_width = Math_round (fst (targetSize w h rs)),
        pi_height = Math_round (snd (targetSize w h rs)),
        pi_size = Math_round ((real (length (env_toDataURL env c (rs_format rs) (rs_quality rs)))
          - real (length (''data:'' @ format_string (rs_format rs) @ '';base64,''))) * 3 / 4)\<rparr>)
      (renderCanvas env w h wm rs)"
  using assms
  by (cases "renderCanvas env w h wm rs") (simp_all add: processImage_def Let_def split_beta)

lemma processImage_ResolvedD:
  assumes "processImage env file wm rs = Some (Resolved r)"
  shows "file_readable file \<and> env_getContext env \<and> (\<exists>w h. file_image file = Some (w, h))"
  using assms by (auto simp: processImage_def split: if_splits option.splits)

section \<open>Termination of the tiled mode\<close>

text \<open>
  C3 (fails on the code). The claim: for every watermark with position tiled the
  generation of the anchors ends; a step that is not positive is a fatal configuration
  error, and an empty text paints nothing and is no hang. The code has no such guard:
  for the empty text, which measures 0 wide, \<open>stepX\<close> is 0, the outer loop stays at
  \<open>x = 0 < targetWidth\<close> for ever, and \<open>processImage\<close> has no outcome.
\<close>

theorem tiled_empty_text_never_returns:
  "processImage host (picture ''photo.jpg'' 2000 1000) (mark [] 24 TILED 20 50) (jpeg_at 1200) = None"
proof -
  let ?wm = "mark [] 24 TILED 20 50" and ?rs = "jpeg_at 1200"
  have ts: "targetSize 2000 1000 ?rs = (1200, 600)"
    by (simp add: targetSize_def jpeg_at_def fl_eval)
  have tw: "textWidth host ?wm 1200 = 0"
    by (simp add: textWidth_def host_simps mark_def mul64_def div64_def)
  have pos: "wm_position ?wm = TILED"
    by (simp add: mark_def)
  have "renderCanvas host 2000 1000 ?wm ?rs = None"
  proof (cases "renderCanvas host 2000 1000 ?wm ?rs")
    case (Some c)
    then have "loop_x ?wm 0 (actualFontSize ?wm 1200) (- 0) (add64 1200 0)
        (tile_step 0 (wm_tilingGap ?wm))
        (add64 600 (actualFontSize ?wm 1200)) (tile_step (actualFontSize ?wm 1200) (wm_tilingGap ?wm))
        (styledCanvas 2000 1000 ?wm ?rs) = Some c"
      unfolding renderCanvas_tiled [OF pos] ts fst_conv snd_conv tw .
    from loop_x_stuck [OF this] show ?thesis
      by (simp add: tile_step_def fl_eval)
  qed simp
  then show ?thesis
    using processImage_eq [of "picture ''photo.jpg'' 2000 1000" 2000 1000 host ?wm ?rs]
    by (simp add: picture_def host_simps)
qed

section \<open>Rounding\<close>

lemma head_length: "22 \<le> length (''data:'' @ format_string f @ '';base64,'')"
  by (cases f) simp_all

lemma Math_round_less:
  assumes "y + 1 \<le> x"
  shows "Math_round y < Math_round x"
  unfolding Math_round_def using assms by linarith

lemma Math_round_of_nat: "Math_round (real n) = int n"
  unfolding Math_round_def by linarith

lemma Math_round_near: "\<bar>real_of_int (Math_round x) - x\<bar> \<le> 1 / 2"
  unfolding Math_round_def by linarith

lemma abs_diff_bound:
  fixes a b c p q :: real
  shows "c = a - b \<Longrightarrow> \<bar>a\<bar> \<le> p / 2 \<Longrightarrow> \<bar>b\<bar> \<le> q / 2 \<Longrightarrow> \<bar>c\<bar> \<le> (p + q) / 2"
  by (simp add: add_divide_distrib)

section \<open>What the loops leave behind\<close>

lemma renderCanvas_inv:
  assumes "renderCanvas env w h wm rs = Some c"
  shows "\<exists>as. c = (styledCanvas w h wm rs)\<lparr>cv_ops := cv_ops (styledCanvas w h wm rs) @
      map (stamp wm (textWidth env wm (fst (targetSize w h rs)))
        (cv_state (styledCanvas w h wm rs))) as\<rparr>"
proof (cases "wm_position wm = TILED")
  case True
  from assms loop_x_result [of wm _ _ _ _ _ _ _ "styledCanvas w h wm rs" c]
  show ?thesis unfolding renderCanvas_tiled [OF True] by blast
next
  case False
  from assms have "c = (styledCanvas w h wm rs)\<lparr>cv_ops := cv_ops (styledCanvas w h wm rs) @
      map (stamp wm (textWidth env wm (fst (targetSize w h rs)))
        (cv_state (styledCanvas w h wm rs)))
        [single_anchor (wm_position wm) (fst (targetSize w h rs)) (snd (targetSize w h rs))
           (padding wm (fst (targetSize w h rs))) (textWidth env wm (fst (targetSize w h rs)))
           (actualFontSize wm (fst (targetSize w h rs)))]\<rparr>"
    unfolding renderCanvas_single [OF False] by simp
  then show ?thesis ..
qed

lemma painted_anchors_stamps:
  "painted_anchors (c\<lparr>cv_ops := cv_ops c @ map (stamp wm tw s) as\<rparr>) = painted_anchors c @ as"
  by (induction as rule: rev_induct) (simp_all add: painted_anchors_def op_anchor_stamp)

lemma painted_anchors_styled: "painted_anchors (styledCanvas w h wm rs) = []"
  by (simp add: painted_anchors_def styledCanvas_ops)

section \<open>Two concrete runs\<close>

lemmas unfold_run = processImage_def renderCanvas_def styledCanvas_def targetSize_def host_simps
  picture_def mark_def jpeg_at_def drawWatermarkAt_eq Math_round_def textWidth_def
  actualFontSize_def scaleFactor_def padding_def stamp_def Math_PI_def
  set_width_def set_height_def drawImage_def set_globalAlpha_def set_fillStyle_def
  set_font_def set_textBaseline_def createCanvas_def default_state_def Let_def

lemma run_resized:
  "processImage host (picture ''a.png'' 2000 1000) (mark ''X'' 32 BOTTOM_RIGHT 30 50) (jpeg_at 1000)
     = Some (Resolved \<lparr>pi_id = ''82mvyr'', pi_originalName = ''a.png'',
         pi_previewUrl = ''blob:a.png'',
         pi_processedUrl = ''data:image/jpeg;base64,AAAAAAAA'',
         pi_width = 1000, pi_height = 500, pi_size = 6\<rparr>)"
  apply (simp add: unfold_run)
  apply (simp add: fl_eval)
  done

lemma run_small:
  "processImage host (picture ''b.png'' 800 600) (mark ''X'' 32 BOTTOM_RIGHT 30 50) (jpeg_at 1000)
     = Some (Resolved \<lparr>pi_id = ''82mvyr'', pi_originalName = ''b.png'',
         pi_previewUrl = ''blob:b.png'',
         pi_processedUrl = ''data:image/jpeg;base64,AAAAAAAA'',
         pi_width = 800, pi_height = 600, pi_size = 6\<rparr>)"
  by (simp add: unfold_run)

lemma run_wide:
  "processImage host (picture ''c.png'' 1792 168) (mark ''X'' 32 BOTTOM_RIGHT 30 50) (jpeg_at 1200)
     = Some (Resolved \<lparr>pi_id = ''82mvyr'', pi_originalName = ''c.png'',
         pi_previewUrl = ''blob:c.png'',
         pi_processedUrl = ''data:image/jpeg;base64,AAAAAAAA'',
         pi_width = 1200, pi_height = 112, pi_size = 6\<rparr>)"
  apply (simp add: unfold_run)
  apply (simp add: fl_eval)
  done

section \<open>Resize dimensions\<close>

text \<open>
  The float target height is within \<open>(h + 1) / 2 ^ 51\<close> of \<open>h * maxWidth / w\<close>: the
  division and the multiplication each round once.
\<close>

lemma resize_error:
  assumes "0 < mw" "mw < real w"
  shows "\<bar>mul64 (real h) (div64 mw (real w)) * real w - real h * mw\<bar>
     \<le> real w * (real h + 1) / 2 ^ 51"
proof -
  define u :: real where "u = 2 powi (- 53)"
  define e :: real where "e = 2 powi (- 1075)"
  define a where "a = mw / real w"
  define r where "r = fl a"
  define t where "t = fl (real h * r)"
  have w: "0 < real w" using assms by linarith
  have a0: "0 < a" and a1: "a < 1" using assms w by (simp_all add: a_def)
  have u0: "0 < u" and e0: "0 < e" by (simp_all add: u_def e_def)
  have eu: "e \<le> u" unfolding u_def e_def by (simp only: p2_le)
  have u4: "4 * u = 1 / 2 ^ 51"
  proof -
    have "(2::real) powi (- 51) = 2 powi 2 * 2 powi (- 53)"
      by (simp only: p2_add [symmetric]) simp
    moreover have "(2::real) powi (- 51) = 1 / 2 ^ 51"
      by (simp only: p2_neg) (simp add: p2_nat)
    moreover have "(2::real) powi 2 = 4" by (simp add: p2_nat)
    ultimately show ?thesis by (simp add: u_def)
  qed
  have ra: "\<bar>r - a\<bar> \<le> a * u + e"
    using fl_error [of a] a0 by (simp add: r_def u_def e_def)
  have r0: "0 \<le> r" unfolding r_def using a0 by (intro fl_nonneg) simp
  have r1: "r \<le> 1"
    using fl_le_int [of a 1] a1 unfolding r_def by simp
  have h0: "0 \<le> real h" by simp
  have hr0: "0 \<le> real h * r" using r0 by simp
  have tr: "\<bar>t - real h * r\<bar> \<le> real h * r * u + e"
    using fl_error [of "real h * r"] hr0 by (simp add: t_def u_def e_def)
  have hr1: "real h * r \<le> real h" using mult_left_mono [OF r1 h0] by simp
  have A: "real h * r * u \<le> real h * u"
    using mult_right_mono [OF hr1, of u] u0 by simp
  have au: "a * u \<le> u" using mult_right_mono [of a 1 u] a1 u0 by simp
  have B: "real h * \<bar>r - a\<bar> \<le> real h * (u + e)"
    using ra au by (intro mult_left_mono) simp_all
  have C: "\<bar>real h * r - real h * a\<bar> = real h * \<bar>r - a\<bar>"
    by (simp add: abs_mult right_diff_distrib [symmetric])
  have "\<bar>t - real h * a\<bar> \<le> \<bar>t - real h * r\<bar> + \<bar>real h * r - real h * a\<bar>" by linarith
  also have "\<dots> \<le> (real h * u + e) + real h * (u + e)"
    using tr A B unfolding C by linarith
  also have "\<dots> \<le> (real h + 1) * (4 * u)"
  proof -
    have p: "real h * e \<le> real h * u" by (rule mult_left_mono [OF eu h0])
    have q: "0 \<le> real h * u" using u0 by simp
    have "(real h + 1) * (4 * u) = 4 * (real h * u) + 4 * u"
      and "real h * (u + e) = real h * u + real h * e"
      by (simp_all add: algebra_simps)
    with p q eu u0 show ?thesis by linarith
  qed
  finally have D: "\<bar>t - real h * a\<bar> \<le> (real h + 1) / 2 ^ 51"
    unfolding u4 by simp
  have "t * real w - real h * mw = (t - real h * a) * real w"
    using w by (simp add: a_def algebra_simps)
  then have "\<bar>t * real w - real h * mw\<bar> = \<bar>t - real h * a\<bar> * real w"
    using w by (simp add: abs_mult)
  also have "\<dots> \<le> (real h + 1) / 2 ^ 51 * real w"
    using D w by (intro mult_right_mono) simp_all
  finally show ?thesis
    by (simp add: t_def r_def a_def mul64_def div64_def mult.commute)
qed

lemma targetSize_ratio:
  assumes "0 < rs_maxWidth rs"
  shows "\<bar>snd (targetSize w h rs) * real w - real h * fst (targetSize w h rs)\<bar>
     \<le> real w * (real h + 1) / 2 ^ 51"
proof (cases "real w > rs_maxWidth rs")
  case True
  then show ?thesis
    using resize_error [OF assms, of w h] by (simp add: targetSize_def Let_def)
next
  case False
  then show ?thesis by (simp add: targetSize_def)
qed

lemma abs_diff_bound3:
  fixes a b c d p q s :: real
  shows "c = a - b + d \<Longrightarrow> \<bar>a\<bar> \<le> p / 2 \<Longrightarrow> \<bar>b\<bar> \<le> q / 2 \<Longrightarrow> \<bar>d\<bar> \<le> s
    \<Longrightarrow> \<bar>c\<bar> \<le> (p + q) / 2 + s"
  by (simp add: add_divide_distrib)

text \<open>
  C1. For every image and every resize configuration with a positive \<open>maxWidth\<close>: an
  image no wider than \<open>maxWidth\<close> keeps its width and height; a wider one gets the
  float target width \<open>maxWidth\<close> and the float target height
  \<open>originalHeight * (maxWidth / originalWidth)\<close>, the division and the multiplication
  being those of doubles, and the result's width and height are these targets rounded
  by \<open>Math.round\<close>. The float targets have the aspect ratio of the input within the two
  roundings of the doubles, \<open>|targetHeight * w - h * targetWidth| \<le> w * (h + 1) / 2 ^ 51\<close>,
  each rounded dimension is within 1/2 of its target, and so the output ratio is that
  of the input within the rounding:
  \<open>|height * w - h * width| \<le> (w + h) / 2 + w * (h + 1) / 2 ^ 51\<close>. Every non-tiled
  invocation on a readable, decodable image with a context produces a result.
\<close>

theorem resize_dimensions:
  assumes "file_image file = Some (w, h)" and "0 < rs_maxWidth rs"
  shows "(\<forall>r. processImage env file wm rs = Some (Resolved r) \<longrightarrow>
       (real w \<le> rs_maxWidth rs \<longrightarrow>
          targetSize w h rs = (real w, real h) \<and> pi_width r = int w \<and> pi_height r = int h)
     \<and> (real w > rs_maxWidth rs \<longrightarrow>
          targetSize w h rs
            = (rs_maxWidth rs, mul64 (real h) (div64 (rs_maxWidth rs) (real w)))
        \<and> pi_width r = Math_round (rs_maxWidth rs)
        \<and> pi_height r = Math_round (mul64 (real h) (div64 (rs_maxWidth rs) (real w)))
        \<and> (rs_maxWidth rs \<in> \<int> \<longrightarrow> real_of_int (pi_width r) = rs_maxWidth rs))
     \<and> \<bar>snd (targetSize w h rs) * real w - real h * fst (targetSize w h rs)\<bar>
           \<le> real w * (real h + 1) / 2 ^ 51
     \<and> \<bar>real_of_int (pi_width r) - fst (targetSize w h rs)\<bar> \<le> 1 / 2
     \<and> \<bar>real_of_int (pi_height r) - snd (targetSize w h rs)\<bar> \<le> 1 / 2
     \<and> \<bar>real_of_int (pi_height r) * real w - real h * real_of_int (pi_width r)\<bar>
           \<le> (real w + real h) / 2 + real w * (real h + 1) / 2 ^ 51)
   \<and> (file_readable file \<and> env_getContext env \<and> wm_position wm \<noteq> TILED \<longrightarrow>
        (\<exists>r. processImage env file wm rs = Some (Resolved r)))"
proof (intro conjI allI impI)
  assume "file_readable file \<and> env_getContext env \<and> wm_position wm \<noteq> TILED"
  then show "\<exists>r. processImage env file wm rs = Some (Resolved r)"
    using processImage_eq [OF _ assms(1), of env wm rs] renderCanvas_single [of wm env w h rs]
    by simp
next
  fix r
  assume ret: "processImage env file wm rs = Some (Resolved r)"
  from processImage_ResolvedD [OF ret] assms(1) have
    f: "file_readable file" "file_image file = Some (w, h)" "env_getContext env"
    by auto
  from ret have wd: "pi_width r = Math_round (fst (targetSize w h rs))"
    and ht: "pi_height r = Math_round (snd (targetSize w h rs))"
    unfolding processImage_eq [OF f] by auto
  show ratio: "\<bar>snd (targetSize w h rs) * real w - real h * fst (targetSize w h rs)\<bar>
      \<le> real w * (real h + 1) / 2 ^ 51"
    by (rule targetSize_ratio [OF assms(2)])
  show nw: "\<bar>real_of_int (pi_width r) - fst (targetSize w h rs)\<bar> \<le> 1 / 2"
    unfolding wd by (rule Math_round_near)
  show nh: "\<bar>real_of_int (pi_height r) - snd (targetSize w h rs)\<bar> \<le> 1 / 2"
    unfolding ht by (rule Math_round_near)
  have e1: "real_of_int (pi_height r) * real w - real h * real_of_int (pi_width r)
      = (real_of_int (pi_height r) - snd (targetSize w h rs)) * real w
        - real h * (real_of_int (pi_width r) - fst (targetSize w h rs))
        + (snd (targetSize w h rs) * real w - real h * fst (targetSize w h rs))"
    by (simp add: algebra_simps)
  have e2: "\<bar>(real_of_int (pi_height r) - snd (targetSize w h rs)) * real w\<bar> \<le> real w / 2"
    using nh by (simp add: abs_mult mult_right_mono [of _ "1 / 2" "real w", simplified])
  have e3: "\<bar>real h * (real_of_int (pi_width r) - fst (targetSize w h rs))\<bar> \<le> real h / 2"
    using nw by (simp add: abs_mult mult_left_mono [of _ "1 / 2" "real h", simplified])
  show "\<bar>real_of_int (pi_height r) * real w - real h * real_of_int (pi_width r)\<bar>
      \<le> (real w + real h) / 2 + real w * (real h + 1) / 2 ^ 51"
    by (rule abs_diff_bound3 [OF e1 e2 e3 ratio])
  {
    assume le: "real w \<le> rs_maxWidth rs"
    then show ts: "targetSize w h rs = (real w, real h)" by (simp add: targetSize_def)
    then show "pi_width r = int w" "pi_height r = int h"
      by (simp_all add: wd ht Math_round_of_nat)
  }
  {
    assume gt: "real w > rs_maxWidth rs"
    then show ts: "targetSize w h rs
        = (rs_maxWidth rs, mul64 (real h) (div64 (rs_maxWidth rs) (real w)))"
      by (simp add: targetSize_def Let_def)
    show "pi_width r = Math_round (rs_maxWidth rs)"
      "pi_height r = Math_round (mul64 (real h) (div64 (rs_maxWidth rs) (real w)))"
      by (simp_all add: wd ht ts)
    {
      assume "rs_maxWidth rs \<in> \<int>"
      then obtain k where "rs_maxWidth rs = real_of_int k" by (auto elim: Ints_cases)
      then show "real_of_int (pi_width r) = rs_maxWidth rs"
        unfolding wd ts fst_conv Math_round_def by simp
    }
  }
qed

theorem resize_dimensions_witness:
  "file_image (picture ''c.png'' 1792 168) = Some (1792, 168)
   \<and> file_image (picture ''b.png'' 800 600) = Some (800, 600)
   \<and> 0 < rs_maxWidth (jpeg_at 1200) \<and> 0 < rs_maxWidth (jpeg_at 1000)
   \<and> real 1792 > rs_maxWidth (jpeg_at 1200)
   \<and> real 800 \<le> rs_maxWidth (jpeg_at 1000)
   \<and> (\<exists>r. processImage host (picture ''c.png'' 1792 168) (mark ''X'' 32 BOTTOM_RIGHT 30 50)
            (jpeg_at 1200) = Some (Resolved r)
        \<and> pi_width r = Math_round (rs_maxWidth (jpeg_at 1200))
        \<and> pi_height r
             = Math_round (mul64 (real 168) (div64 (rs_maxWidth (jpeg_at 1200)) (real 1792)))
        \<and> pi_width r = 1200 \<and> pi_height r = 112)
   \<and> mul64 168 (div64 1200 1792) = 7916483719987199 / 70368744177664
   \<and> (\<exists>r. processImage host (picture ''b.png'' 800 600) (mark ''X'' 32 BOTTOM_RIGHT 30 50)
            (jpeg_at 1000) = Some (Resolved r)
        \<and> pi_width r = 800 \<and> pi_height r = 600)"
proof -
  have c: "file_image (picture ''c.png'' 1792 168) = Some (1792, 168)"
    and b: "file_image (picture ''b.png'' 800 600) = Some (800, 600)"
    by (simp_all add: picture_def)
  have m: "0 < rs_maxWidth (jpeg_at 1200)" and m': "0 < rs_maxWidth (jpeg_at 1000)"
    and gt: "real 1792 > rs_maxWidth (jpeg_at 1200)"
    and le: "real 800 \<le> rs_maxWidth (jpeg_at 1000)"
    by (simp_all add: jpeg_at_def)
  from resize_dimensions [OF c m, of host "mark ''X'' 32 BOTTOM_RIGHT 30 50"] run_wide gt
  have rc: "\<exists>r. processImage host (picture ''c.png'' 1792 168) (mark ''X'' 32 BOTTOM_RIGHT 30 50)
            (jpeg_at 1200) = Some (Resolved r)
        \<and> pi_width r = Math_round (rs_maxWidth (jpeg_at 1200))
        \<and> pi_height r
             = Math_round (mul64 (real 168) (div64 (rs_maxWidth (jpeg_at 1200)) (real 1792)))
        \<and> pi_width r = 1200 \<and> pi_height r = 112"
    by (simp del: of_nat_numeral)
  have v: "mul64 168 (div64 1200 1792) = 7916483719987199 / (70368744177664::real)"
    by (simp add: fl_eval)
  from resize_dimensions [OF b m', of host "mark ''X'' 32 BOTTOM_RIGHT 30 50"] run_small le
  have rb: "\<exists>r. processImage host (picture ''b.png'' 800 600) (mark ''X'' 32 BOTTOM_RIGHT 30 50)
            (jpeg_at 1000) = Some (Resolved r)
        \<and> pi_width r = 800 \<and> pi_height r = 600"
    by simp
  from c b m m' gt le rc v rb show ?thesis by blast
qed

section \<open>The size estimate\<close>

text \<open>
  The size is computed on the lengths of two strings. On integers below \<open>2 ^ 51\<close> (a
  string is shorter than \<open>2 ^ 31\<close> in every engine) the subtraction, the product by 3
  and the division by 4 of doubles are exact, and this is how \<open>processImage\<close> has them.
\<close>

lemma size_arithmetic_exact:
  assumes "k \<le> n" "n < 2 ^ 51"
  shows "div64 (mul64 (sub64 (real n) (real k)) 3) 4 = (real n - real k) * 3 / 4"
proof -
  define d where "d = int n - int k"
  have d: "0 \<le> d" "d < 2 ^ 51" using assms by (simp_all add: d_def)
  have rd: "real n - real k = real_of_int d" using assms by (simp add: d_def)
  have b1: "\<bar>real_of_int d\<bar> < 2 ^ 53"
  proof -
    have "d < 2 ^ 53" using d(2) by simp
    then have "real_of_int d < real_of_int (2 ^ 53)" by (simp only: of_int_less_iff)
    then show ?thesis using d(1) by simp
  qed
  have b3: "real_of_int (3 * d) < 2 ^ 53"
  proof -
    have "3 * d < 2 ^ 53" using d(2) by simp
    then have "real_of_int (3 * d) < real_of_int (2 ^ 53)" by (simp only: of_int_less_iff)
    then show ?thesis by simp
  qed
  have s1: "sub64 (real n) (real k) = real_of_int d"
    unfolding sub64_def rd by (rule fl_of_int [OF b1])
  have s2: "mul64 (real_of_int d) 3 = real_of_int (3 * d)"
    using fl_of_int [of "3 * d"] b3 d(1) by (simp add: mul64_def mult.commute)
  have s3: "div64 (real_of_int (3 * d)) 4 = real_of_int (3 * d) / 4"
  proof (cases "d = 0")
    case True
    then show ?thesis by (simp add: div64_def)
  next
    case False
    define y where "y = real_of_int (3 * d) / 4"
    have y0: "0 < y" using False d(1) by (simp add: y_def)
    have "y < 2 ^ 53 / 4" using b3 by (simp add: y_def)
    then have "y < 2 powi 51" by (simp add: p2_nat)
    from expo_le [OF y0 this] have e: "expo y < 51" .
    have "y = real_of_int (3 * d) * 2 powi (- 2)"
      by (simp only: p2_neg) (simp add: y_def p2_nat)
    moreover have "max (expo \<bar>y\<bar>) (- 1022) - 52 \<le> - 2"
      using e y0 by simp
    ultimately have "fl y = y" by (rule fl_fix)
    then show ?thesis by (simp add: div64_def y_def)
  qed
  have "div64 (mul64 (sub64 (real n) (real k)) 3) 4 = div64 (mul64 (real_of_int d) 3) 4"
    by (simp only: s1)
  also have "\<dots> = div64 (real_of_int (3 * d)) 4" by (simp only: s2)
  also have "\<dots> = real_of_int (3 * d) / 4" by (rule s3)
  also have "\<dots> = (real n - real k) * 3 / 4" by (simp add: rd)
  finally show ?thesis .
qed

text \<open>
  C7. For every produced result, the reported size is the base64 estimate taken after
  the length of the header \<open>data:<format>;base64,\<close> has been subtracted from the length
  of the data URI: \<open>round((length - head) * 3 / 4)\<close>. It is always smaller than the
  estimate \<open>round(length * 3 / 4)\<close> on the whole URI. This is \<open>processImage\<close> of
  services/imageProcessor.ts; the copies of it in index.tsx and in the first unnamed
  file estimate on the whole URI.
\<close>

theorem size_estimate_strips_header:
  assumes "processImage env file wm rs = Some (Resolved r)"
  shows "pi_size r =
      Math_round ((real (length (pi_processedUrl r))
        - real (length (''data:'' @ format_string (rs_format rs) @ '';base64,''))) * 3 / 4)
    \<and> pi_size r < Math_round (real (length (pi_processedUrl r)) * 3 / 4)"
proof -
  from processImage_ResolvedD [OF assms] obtain w h where
    f: "file_readable file" "file_image file = Some (w, h)" "env_getContext env"
    by blast
  let ?head = "length (''data:'' @ format_string (rs_format rs) @ '';base64,'')"
  from assms obtain c where
    r: "r = \<lparr>pi_id = drop 7 (env_random36 env),
        pi_originalName = file_name file,
        pi_previewUrl = env_createObjectURL env file,
        pi_processedUrl = env_toDataURL env c (rs_format rs) (rs_quality rs),
        pi_width = Math_round (fst (targetSize w h rs)),
        pi_height = Math_round (snd (targetSize w h rs)),
        pi_size = Math_round ((real (length (env_toDataURL env c (rs_format rs) (rs_quality rs)))
          - real ?head) * 3 / 4)\<rparr>"
    unfolding processImage_eq [OF f] by auto
  have eq: "pi_size r = Math_round ((real (length (pi_processedUrl r)) - real ?head) * 3 / 4)"
    by (simp add: r)
  have "(22::real) \<le> real ?head" using head_length [of "rs_format rs"] by linarith
  then have "(real (length (pi_processedUrl r)) - real ?head) * 3 / 4 + 1
      \<le> real (length (pi_processedUrl r)) * 3 / 4"
    by (simp add: field_simps)
  from Math_round_less [OF this] eq show ?thesis by simp
qed

theorem size_estimate_strips_header_witness:
  "processImage host (picture ''a.png'' 2000 1000) (mark ''X'' 32 BOTTOM_RIGHT 30 50) (jpeg_at 1000)
     = Some (Resolved \<lparr>pi_id = ''82mvyr'', pi_originalName = ''a.png'',
         pi_previewUrl = ''blob:a.png'',
         pi_processedUrl = ''data:image/jpeg;base64,AAAAAAAA'',
         pi_width = 1000, pi_height = 500, pi_size = 6\<rparr>)
   \<and> (6::int) = Math_round ((real (length ''data:image/jpeg;base64,AAAAAAAA'')
        - real (length (''data:'' @ format_string image_jpeg @ '';base64,''))) * 3 / 4)
   \<and> (6::int) < Math_round (real (length ''data:image/jpeg;base64,AAAAAAAA'') * 3 / 4)"
  using size_estimate_strips_header [OF run_resized] run_resized by (simp add: jpeg_at_def)

section \<open>What one invocation paints\<close>

lemma renderCanvas_single_anchors:
  assumes "wm_position wm \<noteq> TILED"
  shows "\<exists>c. renderCanvas env w h wm rs = Some c \<and>
    painted_anchors c
      = [single_anchor (wm_position wm) (fst (targetSize w h rs)) (snd (targetSize w h rs))
           (padding wm (fst (targetSize w h rs))) (textWidth env wm (fst (targetSize w h rs)))
           (actualFontSize wm (fst (targetSize w h rs)))]"
  unfolding renderCanvas_single [OF assms]
  using painted_anchors_stamps [of "styledCanvas w h wm rs" wm _ _ "[a]" for a]
  by (simp add: painted_anchors_styled)

lemma renderCanvas_tiled_grid:
  assumes "wm_position wm = TILED"
    and "rounds (- textWidth env wm (fst (targetSize w h rs)))
           (tile_step (textWidth env wm (fst (targetSize w h rs))) (wm_tilingGap wm))
           (add64 (fst (targetSize w h rs)) (textWidth env wm (fst (targetSize w h rs)))) nx"
    and "rounds (- actualFontSize wm (fst (targetSize w h rs)))
           (tile_step (actualFontSize wm (fst (targetSize w h rs))) (wm_tilingGap wm))
           (add64 (snd (targetSize w h rs)) (actualFontSize wm (fst (targetSize w h rs)))) ny"
  shows "renderCanvas env w h wm rs =
    Some ((styledCanvas w h wm rs)\<lparr>cv_ops := cv_ops (styledCanvas w h wm rs) @
      map (stamp wm (textWidth env wm (fst (targetSize w h rs)))
             (cv_state (styledCanvas w h wm rs)))
        (grid (- textWidth env wm (fst (targetSize w h rs)))
           (- actualFontSize wm (fst (targetSize w h rs)))
           (tile_step (textWidth env wm (fst (targetSize w h rs))) (wm_tilingGap wm))
           (tile_step (actualFontSize wm (fst (targetSize w h rs))) (wm_tilingGap wm)) nx ny)\<rparr>)"
  unfolding renderCanvas_tiled [OF assms(1)] by (rule loop_x_rounds [OF assms(2,3)])

lemma renderCanvas_tiled_result:
  assumes "wm_position wm = TILED" and "renderCanvas env w h wm rs = Some c"
  shows "\<exists>nx ny.
      rounds (- textWidth env wm (fst (targetSize w h rs)))
        (tile_step (textWidth env wm (fst (targetSize w h rs))) (wm_tilingGap wm))
        (add64 (fst (targetSize w h rs)) (textWidth env wm (fst (targetSize w h rs)))) nx
    \<and> (0 < nx \<longrightarrow>
        rounds (- actualFontSize wm (fst (targetSize w h rs)))
          (tile_step (actualFontSize wm (fst (targetSize w h rs))) (wm_tilingGap wm))
          (add64 (snd (targetSize w h rs)) (actualFontSize wm (fst (targetSize w h rs)))) ny)
    \<and> painted_anchors c
        = grid (- textWidth env wm (fst (targetSize w h rs)))
           (- actualFontSize wm (fst (targetSize w h rs)))
           (tile_step (textWidth env wm (fst (targetSize w h rs))) (wm_tilingGap wm))
           (tile_step (actualFontSize wm (fst (targetSize w h rs))) (wm_tilingGap wm)) nx ny"
proof -
  from assms(2) have "loop_x wm (textWidth env wm (fst (targetSize w h rs)))
      (actualFontSize wm (fst (targetSize w h rs)))
      (- textWidth env wm (fst (targetSize w h rs)))
      (add64 (fst (targetSize w h rs)) (textWidth env wm (fst (targetSize w h rs))))
      (tile_step (textWidth env wm (fst (targetSize w h rs))) (wm_tilingGap wm))
      (add64 (snd (targetSize w h rs)) (actualFontSize wm (fst (targetSize w h rs))))
      (tile_step (actualFontSize wm (fst (targetSize w h rs))) (wm_tilingGap wm))
      (styledCanvas w h wm rs) = Some c"
    unfolding renderCanvas_tiled [OF assms(1)] .
  from loop_x_result [OF this] obtain nx ny where
    "rounds (- textWidth env wm (fst (targetSize w h rs)))
        (tile_step (textWidth env wm (fst (targetSize w h rs))) (wm_tilingGap wm))
        (add64 (fst (targetSize w h rs)) (textWidth env wm (fst (targetSize w h rs)))) nx"
    "0 < nx \<longrightarrow>
        rounds (- actualFontSize wm (fst (targetSize w h rs)))
          (tile_step (actualFontSize wm (fst (targetSize w h rs))) (wm_tilingGap wm))
          (add64 (snd (targetSize w h rs)) (actualFontSize wm (fst (targetSize w h rs)))) ny"
    "c = (styledCanvas w h wm rs)\<lparr>cv_ops := cv_ops (styledCanvas w h wm rs) @
      map (stamp wm (textWidth env wm (fst (targetSize w h rs)))
             (cv_state (styledCanvas w h wm rs)))
        (grid (- textWidth env wm (fst (targetSize w h rs)))
           (- actualFontSize wm (fst (targetSize w h rs)))
           (tile_step (textWidth env wm (fst (targetSize w h rs))) (wm_tilingGap wm))
           (tile_step (actualFontSize wm (fst (targetSize w h rs))) (wm_tilingGap wm)) nx ny)\<rparr>"
    by blast
  then show ?thesis
    by (intro exI [of _ nx] exI [of _ ny])
      (simp add: painted_anchors_stamps painted_anchors_styled)
qed

section \<open>The anchor of the single placements\<close>

text \<open>
  C5. For every placement other than tiled, one instance is painted and its anchor is
  that of the table: with \<open>W\<close>, \<open>H\<close> the float target dimensions, \<open>textH\<close> the
  effective font size and \<open>pad\<close> the effective padding, bottom-right gives
  \<open>(W - pad - textW / 2, H - pad - textH / 2)\<close> and center gives \<open>(W / 2, H / 2)\<close>,
  whatever the padding, each operation being that of doubles. For a 2000 x 1000 image,
  \<open>maxWidth\<close> 1000, bottom-right, padding 30 and font size 32, the anchor is
  \<open>(1000 - 30 - textW / 2, 500 - 30 - 16)\<close>.
\<close>

theorem single_anchor_table:
  assumes "wm_position wm \<noteq> TILED"
  shows "\<exists>c. renderCanvas env w h wm rs = Some c \<and>
    (let W = fst (targetSize w h rs); H = snd (targetSize w h rs);
         textH = max (mul64 (wm_fontSize wm) (div64 W 1000)) 12;
         textW = env_measureText env textH (wm_text wm);
         pad = mul64 (wm_padding wm) (div64 W 1000)
     in (wm_position wm = TOP_LEFT \<longrightarrow>
           painted_anchors c = [(add64 pad (div64 textW 2), add64 pad (div64 textH 2))])
      \<and> (wm_position wm = TOP_RIGHT \<longrightarrow>
           painted_anchors c
             = [(sub64 (sub64 W pad) (div64 textW 2), add64 pad (div64 textH 2))])
      \<and> (wm_position wm = BOTTOM_LEFT \<longrightarrow>
           painted_anchors c
             = [(add64 pad (div64 textW 2), sub64 (sub64 H pad) (div64 textH 2))])
      \<and> (wm_position wm = BOTTOM_RIGHT \<longrightarrow>
           painted_anchors c
             = [(sub64 (sub64 W pad) (div64 textW 2), sub64 (sub64 H pad) (div64 textH 2))])
      \<and> (wm_position wm = CENTER \<longrightarrow>
           painted_anchors c = [(div64 W 2, div64 H 2)]
         \<and> (\<forall>p. \<exists>c'. renderCanvas env w h (wm\<lparr>wm_padding := p\<rparr>) rs = Some c'
                \<and> painted_anchors c' = [(div64 W 2, div64 H 2)]))
      \<and> (w = 2000 \<and> h = 1000 \<and> rs_maxWidth rs = 1000 \<and> wm_position wm = BOTTOM_RIGHT
           \<and> wm_padding wm = 30 \<and> wm_fontSize wm = 32 \<longrightarrow>
           painted_anchors c
             = [(sub64 (1000 - 30) (div64 (env_measureText env 32 (wm_text wm)) 2),
                 500 - 30 - 16)]))"
proof -
  let ?W = "fst (targetSize w h rs)" and ?H = "snd (targetSize w h rs)"
  from renderCanvas_single_anchors [OF assms, of env w h rs] obtain c where
    ret: "renderCanvas env w h wm rs = Some c"
    and anchors: "painted_anchors c = [single_anchor (wm_position wm) ?W ?H (padding wm ?W)
        (textWidth env wm ?W) (actualFontSize wm ?W)]"
    by blast
  have centre: "\<exists>c'. renderCanvas env w h (wm\<lparr>wm_padding := p\<rparr>) rs = Some c'
      \<and> painted_anchors c' = [(div64 ?W 2, div64 ?H 2)]"
    if "wm_position wm = CENTER" for p
    using renderCanvas_single_anchors [of "wm\<lparr>wm_padding := p\<rparr>" env w h rs] that
    by simp
  have scenario: "targetSize 2000 1000 rs = (1000, 500)" if "rs_maxWidth rs = 1000"
    using that by (simp add: targetSize_def fl_eval)
  have vals: "div64 1000 1000 = 1" "mul64 32 1 = 32" "mul64 30 1 = 30"
    "sub64 1000 30 = 970" "sub64 500 30 = 470" "div64 32 2 = 16" "sub64 470 16 = 454"
    by (simp_all add: fl_eval)
  have "(let W = ?W; H = ?H;
         textH = max (mul64 (wm_fontSize wm) (div64 W 1000)) 12;
         textW = env_measureText env textH (wm_text wm);
         pad = mul64 (wm_padding wm) (div64 W 1000)
     in (wm_position wm = TOP_LEFT \<longrightarrow>
           painted_anchors c = [(add64 pad (div64 textW 2), add64 pad (div64 textH 2))])
      \<and> (wm_position wm = TOP_RIGHT \<longrightarrow>
           painted_anchors c
             = [(sub64 (sub64 W pad) (div64 textW 2), add64 pad (div64 textH 2))])
      \<and> (wm_position wm = BOTTOM_LEFT \<longrightarrow>
           painted_anchors c
             = [(add64 pad (div64 textW 2), sub64 (sub64 H pad) (div64 textH 2))])
      \<and> (wm_position wm = BOTTOM_RIGHT \<longrightarrow>
           painted_anchors c
             = [(sub64 (sub64 W pad) (div64 textW 2), sub64 (sub64 H pad) (div64 textH 2))])
      \<and> (wm_position wm = CENTER \<longrightarrow>
           painted_anchors c = [(div64 W 2, div64 H 2)]
         \<and> (\<forall>p. \<exists>c'. renderCanvas env w h (wm\<lparr>wm_padding := p\<rparr>) rs = Some c'
                \<and> painted_anchors c' = [(div64 W 2, div64 H 2)]))
      \<and> (w = 2000 \<and> h = 1000 \<and> rs_maxWidth rs = 1000 \<and> wm_position wm = BOTTOM_RIGHT
           \<and> wm_padding wm = 30 \<and> wm_fontSize wm = 32 \<longrightarrow>
           painted_anchors c
             = [(sub64 (1000 - 30) (div64 (env_measureText env 32 (wm_text wm)) 2),
                 500 - 30 - 16)]))"
    unfolding Let_def
    apply (intro conjI impI allI)
          apply (simp add: anchors textWidth_def actualFontSize_def scaleFactor_def padding_def)
         apply (simp add: anchors textWidth_def actualFontSize_def scaleFactor_def padding_def)
        apply (simp add: anchors textWidth_def actualFontSize_def scaleFactor_def padding_def)
       apply (simp add: anchors textWidth_def actualFontSize_def scaleFactor_def padding_def)
      apply (simp add: anchors)
     apply (erule centre)
    apply (simp add: anchors scenario textWidth_def actualFontSize_def scaleFactor_def padding_def
        vals)
    done
  with ret show ?thesis by blast
qed

theorem single_anchor_table_witness:
  "wm_position (mark ''X'' 32 BOTTOM_RIGHT 30 50) \<noteq> TILED
   \<and> (\<exists>c. renderCanvas host 2000 1000 (mark ''X'' 32 BOTTOM_RIGHT 30 50) (jpeg_at 1000) = Some c
        \<and> painted_anchors c = [(962, 454)])"
proof -
  have p: "wm_position (mark ''X'' 32 BOTTOM_RIGHT 30 50) \<noteq> TILED"
    by (simp add: mark_def)
  have ts: "targetSize 2000 1000 (jpeg_at 1000) = (1000, 500)"
    by (simp add: targetSize_def jpeg_at_def fl_eval)
  from single_anchor_table [OF p, of host 2000 1000 "jpeg_at 1000"]
  obtain c where ret: "renderCanvas host 2000 1000 (mark ''X'' 32 BOTTOM_RIGHT 30 50) (jpeg_at 1000)
      = Some c"
    and a: "painted_anchors c
      = [(sub64 (sub64 1000 (mul64 30 (div64 1000 1000)))
            (div64 (env_measureText host (max (mul64 32 (div64 1000 1000)) 12) ''X'') 2),
          sub64 (sub64 500 (mul64 30 (div64 1000 1000)))
            (div64 (max (mul64 32 (div64 1000 1000)) 12) 2))]"
    by (auto simp: Let_def ts mark_def)
  from a have "painted_anchors c = [(962, 454)]"
    by (simp add: host_simps fl_eval)
  with p ret show ?thesis by blast
qed

section \<open>A small tiled surface\<close>

text \<open>
  A surface of 25 by 10 with the text \<open>XX\<close>: the font size is at its floor of 12, the
  text is 12 wide, and every number of the run is an integer.
\<close>

lemma small_surface:
  "targetSize 25 10 (jpeg_at 1200) = (25, 10)"
  "actualFontSize (mark ''XX'' 24 TILED 20 g) 25 = 12"
  "textWidth host (mark ''XX'' 24 TILED 20 g) 25 = 12"
  "actualFontSize (turned (mark ''XX'' 24 TILED 20 g)) 25 = 12"
  "textWidth host (turned (mark ''XX'' 24 TILED 20 g)) 25 = 12"
  "add64 25 12 = 37" "add64 10 12 = 22"
  "tile_step 12 0 = 12" "tile_step 12 50 = 18" "tile_step 12 100 = 24"
  by (simp_all add: targetSize_def jpeg_at_def actualFontSize_def scaleFactor_def textWidth_def
      turned_def mark_def host_simps tile_step_def fl_eval)

lemma small_rounds:
  "rounds (- 12) 12 37 (Suc (Suc (Suc (Suc (Suc 0)))))" "rounds (- 12) 12 22 (Suc (Suc (Suc 0)))"
  "rounds (- 12) 18 37 (Suc (Suc (Suc 0)))" "rounds (- 12) 18 22 (Suc (Suc 0))"
  "rounds (- 12) 24 37 (Suc (Suc (Suc 0)))" "rounds (- 12) 24 22 (Suc (Suc 0))"
  by (simp_all add: rounds_Suc rounds_0 fl_eval)

lemma small_grids:
  "grid (- 12) (- 12) 18 18 (Suc (Suc (Suc 0))) (Suc (Suc 0))
     = [(- 12, - 12), (- 12, 6), (6, - 12), (6, 6), (24, - 12), (24, 6)]"
  "grid (- 12) (- 12) 12 12 (Suc (Suc (Suc (Suc (Suc 0))))) (Suc (Suc (Suc 0)))
     = [(- 12, - 12), (- 12, 0), (- 12, 12), (0, - 12), (0, 0), (0, 12), (12, - 12), (12, 0),
        (12, 12), (24, - 12), (24, 0), (24, 12), (36, - 12), (36, 0), (36, 12)]"
  "grid (- 12) (- 12) 24 24 (Suc (Suc (Suc 0))) (Suc (Suc 0))
     = [(- 12, - 12), (- 12, 12), (12, - 12), (12, 12), (36, - 12), (36, 12)]"
  by (simp_all add: grid_def advance_Suc fl_eval)

section \<open>The scale of the watermark\<close>

text \<open>
  C6. For every invocation, \<open>scaleFactor = targetWidth / 1000\<close>, the effective font
  size is \<open>max (fontSize * scaleFactor, 12)\<close> and so never below 12, and the effective
  padding is \<open>padding * scaleFactor\<close>, the division and the products being those of
  doubles; the scale factor is the quotient within one rounding. These are the sizes
  the surface is painted with: the font of the context is that font size, and the
  top-left anchor lies the effective padding plus half the text away from the corner.
\<close>

theorem watermark_scale_parameters:
  "(let W = fst (targetSize w h rs)
    in scaleFactor W = div64 W 1000
     \<and> \<bar>scaleFactor W - W / 1000\<bar> \<le> \<bar>W / 1000\<bar> * 2 powi (- 53) + 2 powi (- 1075)
     \<and> actualFontSize wm W = max (mul64 (wm_fontSize wm) (div64 W 1000)) 12
     \<and> 12 \<le> actualFontSize wm W
     \<and> padding wm W = mul64 (wm_padding wm) (div64 W 1000)
     \<and> (\<forall>c. renderCanvas env w h wm rs = Some c \<longrightarrow>
          ds_font (cv_state c) = max (mul64 (wm_fontSize wm) (div64 W 1000)) 12
        \<and> (wm_position wm = TOP_LEFT \<longrightarrow>
             painted_anchors c
               = [(add64 (mul64 (wm_padding wm) (div64 W 1000))
                     (div64 (env_measureText env
                        (max (mul64 (wm_fontSize wm) (div64 W 1000)) 12) (wm_text wm)) 2),
                   add64 (mul64 (wm_padding wm) (div64 W 1000))
                     (div64 (max (mul64 (wm_fontSize wm) (div64 W 1000)) 12) 2))])))"
proof -
  let ?W = "fst (targetSize w h rs)"
  have font: "ds_font (cv_state c) = max (mul64 (wm_fontSize wm) (div64 ?W 1000)) 12"
    if "renderCanvas env w h wm rs = Some c" for c
    using renderCanvas_inv [OF that]
    by (auto simp: styledCanvas_state actualFontSize_def scaleFactor_def)
  have corner: "painted_anchors c
      = [(add64 (mul64 (wm_padding wm) (div64 ?W 1000))
            (div64 (env_measureText env
               (max (mul64 (wm_fontSize wm) (div64 ?W 1000)) 12) (wm_text wm)) 2),
          add64 (mul64 (wm_padding wm) (div64 ?W 1000))
            (div64 (max (mul64 (wm_fontSize wm) (div64 ?W 1000)) 12) 2))]"
    if "renderCanvas env w h wm rs = Some c" "wm_position wm = TOP_LEFT" for c
  proof -
    have nt: "wm_position wm \<noteq> TILED" using that(2) by simp
    from that(1) show ?thesis
      unfolding renderCanvas_single [OF nt]
      using painted_anchors_stamps [of "styledCanvas w h wm rs" wm _ _ "[a]" for a]
      by (auto simp: painted_anchors_styled that(2) textWidth_def actualFontSize_def
          scaleFactor_def padding_def)
  qed
  show ?thesis
    unfolding Let_def
    apply (intro conjI allI impI)
          apply (simp add: scaleFactor_def)
         apply (simp only: scaleFactor_def div64_def fl_error)
        apply (simp add: actualFontSize_def scaleFactor_def)
       apply (simp add: actualFontSize_def)
      apply (simp add: padding_def scaleFactor_def)
     apply (erule font)
    apply (erule (1) corner)
    done
qed

theorem watermark_scale_parameters_witness:
  "wm_position (mark ''X'' 24 TOP_LEFT 20 50) = TOP_LEFT
   \<and> (\<exists>c. renderCanvas host 400 300 (mark ''X'' 24 TOP_LEFT 20 50) (jpeg_at 1200) = Some c
        \<and> ds_font (cv_state c) = 12 \<and> painted_anchors c = [(11, 14)])"
proof -
  let ?wm = "mark ''X'' 24 TOP_LEFT 20 50"
  have pos: "wm_position ?wm = TOP_LEFT" and nt: "wm_position ?wm \<noteq> TILED"
    by (simp_all add: mark_def)
  have ts: "targetSize 400 300 (jpeg_at 1200) = (400, 300)"
    by (simp add: targetSize_def jpeg_at_def)
  from renderCanvas_single_anchors [OF nt, of host 400 300 "jpeg_at 1200"] obtain c where
    ret: "renderCanvas host 400 300 ?wm (jpeg_at 1200) = Some c"
    by blast
  from watermark_scale_parameters [of 400 300 "jpeg_at 1200" ?wm host] ret pos
  have "ds_font (cv_state c)
        = max (mul64 (wm_fontSize ?wm) (div64 400 1000)) 12
      \<and> painted_anchors c
        = [(add64 (mul64 (wm_padding ?wm) (div64 400 1000))
              (div64 (env_measureText host
                 (max (mul64 (wm_fontSize ?wm) (div64 400 1000)) 12) (wm_text ?wm)) 2),
            add64 (mul64 (wm_padding ?wm) (div64 400 1000))
              (div64 (max (mul64 (wm_fontSize ?wm) (div64 400 1000)) 12) 2))]"
    by (simp add: Let_def ts)
  then have "ds_font (cv_state c) = 12 \<and> painted_anchors c = [(11, 14)]"
    by (simp add: mark_def host_simps fl_eval)
  with ret pos show ?thesis by blast
qed

section \<open>The scope of the drawing state\<close>

text \<open>
  C10. Whatever anchors one invocation paints, the primitive leaves the drawing state
  and the stack of saved states as it found them, so every instance is painted under the
  styled state moved to its own anchor and rotated there, and nothing of one instance
  reaches the next. The surface holds the background exactly as the plain resize draws
  it, followed by text operations only, one per anchor; at the end the transform is the
  identity, the filter is none and no state is left on the stack.
\<close>

theorem watermark_state_scoped:
  assumes "renderCanvas env w h wm rs = Some c"
  shows "cv_state c = cv_state (styledCanvas w h wm rs)
    \<and> cv_stack c = []
    \<and> ds_transform (cv_state c) = []
    \<and> ds_filter (cv_state c) = None
    \<and> cv_ops (styledCanvas w h wm rs)
         = [DrawImage w h 0 0 (fst (targetSize w h rs)) (snd (targetSize w h rs))]
    \<and> cv_ops c = cv_ops (styledCanvas w h wm rs) @
          map (\<lambda>(x, y). FillText (wm_text wm)
                 (div64 (- textWidth env wm (fst (targetSize w h rs))) 2) 0
                 ((cv_state (styledCanvas w h wm rs))\<lparr>
                    ds_transform :=
                      [Translate x y, Rotate (div64 (mul64 (wm_rotation wm) Math_PI) 180)],
                    ds_filter :=
                      (if wm_contrast wm \<noteq> 0 \<and> 0 \<le> add64 1 (div64 (wm_contrast wm) 100)
                       then Some (add64 1 (div64 (wm_contrast wm) 100)) else None)\<rparr>))
            (painted_anchors c)
    \<and> (\<forall>x y d. cv_state (drawWatermarkAt wm (textWidth env wm (fst (targetSize w h rs))) x y d)
                   = cv_state d
              \<and> cv_stack (drawWatermarkAt wm (textWidth env wm (fst (targetSize w h rs))) x y d)
                   = cv_stack d)"
proof -
  let ?s = "styledCanvas w h wm rs"
  let ?tw = "textWidth env wm (fst (targetSize w h rs))"
  from renderCanvas_inv [OF assms] obtain as where
    c: "c = ?s\<lparr>cv_ops := cv_ops ?s @ map (stamp wm ?tw (cv_state ?s)) as\<rparr>"
    by blast
  have tr: "ds_transform (cv_state ?s) = []" and nf: "ds_filter (cv_state ?s) = None"
    by (simp_all add: styledCanvas_state default_state_def)
  have st: "stamp wm ?tw (cv_state ?s) = (\<lambda>(x, y). FillText (wm_text wm) (div64 (- ?tw) 2) 0
      ((cv_state ?s)\<lparr>ds_transform :=
           [Translate x y, Rotate (div64 (mul64 (wm_rotation wm) Math_PI) 180)],
         ds_filter := (if wm_contrast wm \<noteq> 0 \<and> 0 \<le> add64 1 (div64 (wm_contrast wm) 100)
                       then Some (add64 1 (div64 (wm_contrast wm) 100)) else None)\<rparr>))"
    by (rule ext) (simp add: stamp_def tr nf split_beta)
  have anchors: "painted_anchors c = as"
    unfolding c by (simp add: painted_anchors_stamps painted_anchors_styled)
  have ops: "cv_ops c = cv_ops ?s @ map (stamp wm ?tw (cv_state ?s)) as"
    unfolding c by simp
  show ?thesis
    apply (intro conjI allI)
          apply (simp add: c)
         apply (simp add: c styledCanvas_stack)
        apply (simp add: c tr)
       apply (simp add: c nf)
      apply (rule styledCanvas_ops)
     apply (simp only: anchors ops st)
    apply (simp add: drawWatermarkAt_eq)
   apply (simp add: drawWatermarkAt_eq)
    done
qed


theorem watermark_state_scoped_witness:
  "\<exists>c. renderCanvas host 25 10 (turned (mark ''XX'' 24 TILED 20 50)) (jpeg_at 1200) = Some c
     \<and> cv_stack c = [] \<and> ds_transform (cv_state c) = [] \<and> ds_filter (cv_state c) = None
     \<and> painted_anchors c = [(- 12, - 12), (- 12, 6), (6, - 12), (6, 6), (24, - 12), (24, 6)]
     \<and> cv_ops c = DrawImage 25 10 0 0 25 10 #
          map (\<lambda>(x, y). FillText ''XX'' (- 6) 0
                 \<lparr>ds_globalAlpha = 3602879701896397 / 4503599627370496,
                    ds_fillStyle = ''#000000'', ds_font = 12, ds_textBaseline = ''middle'',
                    ds_transform = [Translate x y, Rotate (884279719003555 / 1125899906842624)],
                    ds_filter = Some (3 / 2)\<rparr>)
            [(- 12, - 12), (- 12, 6), (6, - 12), (6, 6), (24, - 12), (24, 6)]"
proof -
  let ?wm = "turned (mark ''XX'' 24 TILED 20 50)"
  have pos: "wm_position ?wm = TILED" and gap: "wm_tilingGap ?wm = 50"
    and rot: "wm_rotation ?wm = 45" and con: "wm_contrast ?wm = 50"
    and wtext: "wm_text ?wm = ''XX''" and col: "wm_color ?wm = ''#000000''"
    and opa: "wm_opacity ?wm = fl (4 / 5)"
    by (simp_all add: turned_def mark_def)
  have r1: "rounds (- textWidth host ?wm (fst (targetSize 25 10 (jpeg_at 1200))))
      (tile_step (textWidth host ?wm (fst (targetSize 25 10 (jpeg_at 1200)))) (wm_tilingGap ?wm))
      (add64 (fst (targetSize 25 10 (jpeg_at 1200)))
         (textWidth host ?wm (fst (targetSize 25 10 (jpeg_at 1200))))) (Suc (Suc (Suc 0)))"
    and r2: "rounds (- actualFontSize ?wm (fst (targetSize 25 10 (jpeg_at 1200))))
      (tile_step (actualFontSize ?wm (fst (targetSize 25 10 (jpeg_at 1200)))) (wm_tilingGap ?wm))
      (add64 (snd (targetSize 25 10 (jpeg_at 1200)))
         (actualFontSize ?wm (fst (targetSize 25 10 (jpeg_at 1200))))) (Suc (Suc 0))"
    by (simp_all add: small_surface small_rounds gap)
  from renderCanvas_tiled_grid [OF pos r1 r2] obtain c where
    ret: "renderCanvas host 25 10 ?wm (jpeg_at 1200) = Some c"
    and c: "c = (styledCanvas 25 10 ?wm (jpeg_at 1200))\<lparr>cv_ops :=
        cv_ops (styledCanvas 25 10 ?wm (jpeg_at 1200)) @
        map (stamp ?wm (textWidth host ?wm (fst (targetSize 25 10 (jpeg_at 1200))))
               (cv_state (styledCanvas 25 10 ?wm (jpeg_at 1200))))
          (grid (- textWidth host ?wm (fst (targetSize 25 10 (jpeg_at 1200))))
             (- actualFontSize ?wm (fst (targetSize 25 10 (jpeg_at 1200))))
             (tile_step (textWidth host ?wm (fst (targetSize 25 10 (jpeg_at 1200))))
                (wm_tilingGap ?wm))
             (tile_step (actualFontSize ?wm (fst (targetSize 25 10 (jpeg_at 1200))))
                (wm_tilingGap ?wm)) (Suc (Suc (Suc 0))) (Suc (Suc 0)))\<rparr>"
    by simp
  have anch: "painted_anchors c
      = [(- 12, - 12), (- 12, 6), (6, - 12), (6, 6), (24, - 12), (24, 6)]"
    unfolding c painted_anchors_stamps painted_anchors_styled
    by (simp add: small_surface small_grids gap)
  have nums: "div64 (- 12) 2 = - 6" "div64 (mul64 45 Math_PI) 180 = 884279719003555 / 1125899906842624"
    "add64 1 (div64 50 100) = 3 / 2" "fl (4 / 5) = 3602879701896397 / 4503599627370496"
    by (simp_all add: Math_PI_def fl_eval)
  from watermark_state_scoped [OF ret]
  have "cv_stack c = [] \<and> ds_transform (cv_state c) = [] \<and> ds_filter (cv_state c) = None
     \<and> cv_ops c = DrawImage 25 10 0 0 25 10 #
          map (\<lambda>(x, y). FillText ''XX'' (- 6) 0
                 \<lparr>ds_globalAlpha = 3602879701896397 / 4503599627370496,
                    ds_fillStyle = ''#000000'', ds_font = 12, ds_textBaseline = ''middle'',
                    ds_transform = [Translate x y, Rotate (884279719003555 / 1125899906842624)],
                    ds_filter = Some (3 / 2)\<rparr>)
            [(- 12, - 12), (- 12, 6), (6, - 12), (6, 6), (24, - 12), (24, 6)]"
    unfolding anch
    by (simp add: small_surface styledCanvas_state default_state_def rot con wtext col opa nums)
  with ret anch show ?thesis by blast
qed

section \<open>A batch\<close>

lemma those_map_Some: "those (map Some xs) = Some xs"
  by (induction xs) simp_all

lemma Promise_all_Resolved: "Promise_all (map Resolved rs) = Resolved rs"
  by (induction rs) simp_all

lemma Promise_all_Rejected:
  assumes "Rejected e \<in> set ps"
  shows "\<exists>e'. Rejected e' \<in> set ps \<and> Promise_all ps = Rejected e'"
  using assms
proof (induction ps)
  case Nil
  then show ?case by simp
next
  case (Cons p ps)
  show ?case
  proof (cases p)
    case (Rejected e0)
    then show ?thesis by auto
  next
    case (Resolved v)
    with Cons obtain e' where "Rejected e' \<in> set ps" "Promise_all ps = Rejected e'" by auto
    with Resolved show ?thesis by auto
  next
    case Pending
    with Cons obtain e' where "Rejected e' \<in> set ps" "Promise_all ps = Rejected e'" by auto
    with Pending show ?thesis by auto
  qed
qed

lemma invocations_eq:
  assumes len: "length ps = length fs"
    and each: "\<And>i. i < length fs \<Longrightarrow> processImage (envs i) (fd_file (fs ! i)) wm rs = Some (ps ! i)"
  shows "map (\<lambda>(i, f). processImage (envs i) (fd_file f) wm rs) (enumerate 0 fs) = map Some ps"
  by (rule nth_equalityI) (simp_all add: len each nth_enumerate_eq)

lemma run_unreadable:
  "processImage env (unreadable n) wm rs = Some (Rejected ReaderError)"
  by (simp add: processImage_def unreadable_def)

lemma run_corrupt:
  "processImage env (corrupt n) wm rs = Some Pending"
  by (simp add: processImage_def corrupt_def)

text \<open>
  C2 (as stated, fails). The claim: the failure of one image of a batch is local to it,
  the other images still produce their results, and the caller gets one outcome per
  image. In a batch of three whose second file cannot be read, \<open>Promise.all\<close> is
  rejected and \<open>setProcessedImages\<close> is never called: no result is delivered, the
  reason goes to the console. When the second file is read but does not decode, its
  promise is never settled, nor is \<open>Promise.all\<close>: no result is delivered either.
\<close>

theorem batch_isolation_counterexample:
  "handleProcessAll same_host (mark ''X'' 32 BOTTOM_RIGHT 30 50) (jpeg_at 1000)
       (batch [picture ''a.png'' 2000 1000, unreadable ''x.png'', picture ''b.png'' 800 600])
     = Some ((batch [picture ''a.png'' 2000 1000, unreadable ''x.png'', picture ''b.png'' 800 600])
         \<lparr>app_processedImages := [], app_isProcessing := False, app_console := [ReaderError]\<rparr>)
   \<and> handleProcessAll same_host (mark ''X'' 32 BOTTOM_RIGHT 30 50) (jpeg_at 1000)
       (batch [picture ''a.png'' 2000 1000, corrupt ''x.png'', picture ''b.png'' 800 600])
     = Some ((batch [picture ''a.png'' 2000 1000, corrupt ''x.png'', picture ''b.png'' 800 600])
         \<lparr>app_processedImages := [], app_isProcessing := True, app_console := []\<rparr>)"
  by (simp add: handleProcessAll_def batch_def same_host_def run_resized run_small
      run_unreadable run_corrupt)

text \<open>
  C2 (amended). For every non-empty batch in which each invocation comes to an outcome:
  when every invocation resolves, the caller receives all the results, one per input and
  in the order of the inputs; when some invocation is rejected, the batch as a whole is
  given up: the reason of a rejected invocation is logged, no result of the batch is
  delivered (the processed images stay as they were), and processing is over.
\<close>

theorem batch_all_or_nothing:
  assumes "app_files st \<noteq> []"
    and "length ps = length (app_files st)"
    and "\<forall>i < length (app_files st).
           processImage (envs i) (fd_file (app_files st ! i)) watermark resize = Some (ps ! i)"
  shows "(\<forall>results. ps = map Resolved results \<longrightarrow>
            length results = length (app_files st)
          \<and> handleProcessAll envs watermark resize st
              = Some (st\<lparr>app_processedImages := results, app_isProcessing := False\<rparr>))
    \<and> ((\<exists>e. Rejected e \<in> set ps) \<longrightarrow>
         (\<exists>e. Rejected e \<in> set ps
            \<and> handleProcessAll envs watermark resize st
                = Some (st\<lparr>app_console := app_console st @ [e], app_isProcessing := False\<rparr>)))"
proof -
  have outs: "map (\<lambda>(i, f). processImage (envs i) (fd_file f) watermark resize)
      (enumerate 0 (app_files st)) = map Some ps"
    using assms(2,3) by (intro invocations_eq) simp_all
  have run: "handleProcessAll envs watermark resize st =
      (case Promise_all ps of
         Resolved results \<Rightarrow>
           Some (st\<lparr>app_processedImages := results, app_isProcessing := False\<rparr>)
       | Rejected e \<Rightarrow>
           Some (st\<lparr>app_console := app_console st @ [e], app_isProcessing := False\<rparr>)
       | Pending \<Rightarrow> Some (st\<lparr>app_isProcessing := True\<rparr>))"
    using assms(1) by (simp add: handleProcessAll_def outs those_map_Some)
  show ?thesis
  proof (intro conjI allI impI)
    fix results
    assume ps: "ps = map Resolved results"
    then show "length results = length (app_files st)"
      using assms(2) by simp
    show "handleProcessAll envs watermark resize st
        = Some (st\<lparr>app_processedImages := results, app_isProcessing := False\<rparr>)"
      unfolding run ps Promise_all_Resolved by simp
  next
    assume "\<exists>e. Rejected e \<in> set ps"
    then obtain e where "Rejected e \<in> set ps" by blast
    from Promise_all_Rejected [OF this] obtain e' where
      "Rejected e' \<in> set ps" "Promise_all ps = Rejected e'"
      by blast
    then show "\<exists>e. Rejected e \<in> set ps
        \<and> handleProcessAll envs watermark resize st
            = Some (st\<lparr>app_console := app_console st @ [e], app_isProcessing := False\<rparr>)"
      unfolding run by (intro exI [of _ e']) simp
  qed
qed

theorem batch_all_or_nothing_witness:
  "app_files (batch [picture ''a.png'' 2000 1000, picture ''b.png'' 800 600]) \<noteq> []
   \<and> handleProcessAll same_host (mark ''X'' 32 BOTTOM_RIGHT 30 50) (jpeg_at 1000)
       (batch [picture ''a.png'' 2000 1000, picture ''b.png'' 800 600])
     = Some ((batch [picture ''a.png'' 2000 1000, picture ''b.png'' 800 600])
         \<lparr>app_processedImages :=
            [\<lparr>pi_id = ''82mvyr'', pi_originalName = ''a.png'', pi_previewUrl = ''blob:a.png'',
               pi_processedUrl = ''data:image/jpeg;base64,AAAAAAAA'',
               pi_width = 1000, pi_height = 500, pi_size = 6\<rparr>,
             \<lparr>pi_id = ''82mvyr'', pi_originalName = ''b.png'', pi_previewUrl = ''blob:b.png'',
               pi_processedUrl = ''data:image/jpeg;base64,AAAAAAAA'',
               pi_width = 800, pi_height = 600, pi_size = 6\<rparr>],
          app_isProcessing := False\<rparr>)
   \<and> app_files (batch [picture ''a.png'' 2000 1000, unreadable ''x.png'']) \<noteq> []
   \<and> handleProcessAll same_host (mark ''X'' 32 BOTTOM_RIGHT 30 50) (jpeg_at 1000)
       (batch [picture ''a.png'' 2000 1000, unreadable ''x.png''])
     = Some ((batch [picture ''a.png'' 2000 1000, unreadable ''x.png''])
         \<lparr>app_console := [ReaderError], app_isProcessing := False\<rparr>)"
proof -
  let ?wm = "mark ''X'' 32 BOTTOM_RIGHT 30 50" and ?rs = "jpeg_at 1000"
  let ?ra = "\<lparr>pi_id = ''82mvyr'', pi_originalName = ''a.png'', pi_previewUrl = ''blob:a.png'',
               pi_processedUrl = ''data:image/jpeg;base64,AAAAAAAA'',
               pi_width = 1000, pi_height = 500, pi_size = 6\<rparr>"
  let ?rb = "\<lparr>pi_id = ''82mvyr'', pi_originalName = ''b.png'', pi_previewUrl = ''blob:b.png'',
               pi_processedUrl = ''data:image/jpeg;base64,AAAAAAAA'',
               pi_width = 800, pi_height = 600, pi_size = 6\<rparr>"
  let ?good = "batch [picture ''a.png'' 2000 1000, picture ''b.png'' 800 600]"
  let ?bad = "batch [picture ''a.png'' 2000 1000, unreadable ''x.png'']"
  have g1: "app_files ?good \<noteq> []" and b1: "app_files ?bad \<noteq> []"
    by (simp_all add: batch_def)
  have g2: "length [Resolved ?ra, Resolved ?rb] = length (app_files ?good)"
    and b2: "length [Resolved ?ra, Rejected ReaderError] = length (app_files ?bad)"
    by (simp_all add: batch_def)
  have g3: "\<forall>i < length (app_files ?good).
      processImage (same_host i) (fd_file (app_files ?good ! i)) ?wm ?rs
        = Some ([Resolved ?ra, Resolved ?rb] ! i)"
    by (auto simp: batch_def same_host_def numeral_2_eq_2 less_Suc_eq run_resized run_small)
  have b3: "\<forall>i < length (app_files ?bad).
      processImage (same_host i) (fd_file (app_files ?bad ! i)) ?wm ?rs
        = Some ([Resolved ?ra, Rejected ReaderError] ! i)"
    by (auto simp: batch_def same_host_def numeral_2_eq_2 less_Suc_eq run_resized run_unreadable)
  from batch_all_or_nothing [OF g1 g2 g3]
  have g: "handleProcessAll same_host ?wm ?rs ?good
      = Some (?good\<lparr>app_processedImages := [?ra, ?rb], app_isProcessing := False\<rparr>)"
    by simp
  from batch_all_or_nothing [OF b1 b2 b3]
  have b: "handleProcessAll same_host ?wm ?rs ?bad
      = Some (?bad\<lparr>app_console := [ReaderError], app_isProcessing := False\<rparr>)"
    by (simp add: batch_def)
  from g1 g b1 b show ?thesis by blast
qed

end
